theory Spec2Isabelle
  imports Main "HOL-Library.Word" "HOL-Library.Sublist"
begin

section \<open>JavaScript strings and arrays\<close>

text \<open>
  A JavaScript string is a sequence of UTF-16 code units; \<open>s.length\<close> is the number of
  code units. The regular expressions of the source have no \<open>u\<close> flag, so they work on
  code units too.
\<close>

type_synonym jschar = "16 word"
type_synonym jsstring = "jschar list"

text \<open>An ASCII literal of the source, as code units.\<close>

definition js :: "string \<Rightarrow> jsstring" where
  "js s = map of_char s"

definition nl :: jschar where "nl = 0x0A"
definition cr :: jschar where "cr = 0x0D"
definition sp :: jschar where "sp = 0x20"

text \<open>The separator \<open>'-->'\<close>.\<close>

definition arrow :: jsstring where
  "arrow = [0x2D, 0x2D, 0x3E]"

text \<open>
  White space and line terminators of ECMAScript: what \<open>String.prototype.trim\<close> strips
  and what \<open>\s\<close> matches.
\<close>

definition is_ws :: "jschar \<Rightarrow> bool" where
  "is_ws c = (c = 0x09 \<or> c = 0x0A \<or> c = 0x0B \<or> c = 0x0C \<or> c = 0x0D \<or> c = 0x20
     \<or> c = 0xA0 \<or> c = 0x1680 \<or> (0x2000 \<le> c \<and> c \<le> 0x200A) \<or> c = 0x2028
     \<or> c = 0x2029 \<or> c = 0x202F \<or> c = 0x205F \<or> c = 0x3000 \<or> c = 0xFEFF)"

definition trim :: "jsstring \<Rightarrow> jsstring" where
  "trim s = rev (dropWhile is_ws (rev (dropWhile is_ws s)))"

text \<open>
  \<open>s.split(sep)\<close> for a non-empty string separator: the occurrences of \<open>sep\<close> are found
  from left to right, without overlap. The source only splits on \<open>'\n'\<close>, \<open>'-->'\<close> and
  \<open>' '\<close>. The last case branch is never taken: the result is never empty.
\<close>

function split_str :: "'a list \<Rightarrow> 'a list \<Rightarrow> 'a list list" where
  "split_str sep [] = [[]]"
| "split_str sep (c # cs) =
     (if sep \<noteq> [] \<and> prefix sep (c # cs)
      then [] # split_str sep (drop (length sep) (c # cs))
      else (case split_str sep cs of
              p # ps \<Rightarrow> (c # p) # ps
            | [] \<Rightarrow> [[c]]))"
  by pat_completeness auto
termination
  by (relation "measure (\<lambda>(sep, s). length s)") auto

text \<open>\<open>s.includes(sep)\<close>.\<close>

fun includes_str :: "'a list \<Rightarrow> 'a list \<Rightarrow> bool" where
  "includes_str sep [] = (sep = [])"
| "includes_str sep (c # cs) = (prefix sep (c # cs) \<or> includes_str sep cs)"

text \<open>\<open>xs.join(sep)\<close>.\<close>

fun join :: "'a list \<Rightarrow> 'a list list \<Rightarrow> 'a list" where
  "join sep [] = []"
| "join sep [x] = x"
| "join sep (x # y # ys) = x @ sep @ join sep (y # ys)"

text \<open>
  \<open>s.split(/\r?\n/)\<close>: a split at every \<open>'\n'\<close>, which takes a \<open>'\r'\<close> right before it
  along.
\<close>

fun split_lines :: "jsstring \<Rightarrow> jsstring list" where
  "split_lines [] = [[]]"
| "split_lines [c] = (if c = nl then [[], []] else [[c]])"
| "split_lines (c # d # cs) =
     (if c = nl then [] # split_lines (d # cs)
      else if c = cr \<and> d = nl then [] # split_lines cs
      else (case split_lines (d # cs) of
              p # ps \<Rightarrow> (c # p) # ps
            | [] \<Rightarrow> [[c]]))"

text \<open>
  \<open>s.replace(/\s+/g, ' ')\<close>: every maximal run of white space becomes one space.
\<close>

function collapse_ws :: "jsstring \<Rightarrow> jsstring" where
  "collapse_ws [] = []"
| "collapse_ws (c # cs) =
     (if is_ws c then sp # collapse_ws (dropWhile is_ws cs) else c # collapse_ws cs)"
  by pat_completeness auto
termination
  by (relation "measure length") (auto simp: less_Suc_eq_le length_dropWhile_le)

text \<open>
  Reading \<open>xs[i]\<close> gives \<open>undefined\<close> out of range, and calling a method or reading a
  property of \<open>undefined\<close> throws a TypeError. \<open>UndefinedField\<close> marks the place where
  the source would store \<open>undefined\<close> in a field that the interface declares a string.
\<close>

datatype error = TypeError | UndefinedField

definition js_index :: "'a list \<Rightarrow> nat \<Rightarrow> 'a option" where
  "js_index xs i = (if i < length xs then Some (xs ! i) else None)"

text \<open>\<open>for (let i = lo; i < n; i++) body\<close>, where the body may throw.\<close>

function for_idx :: "nat \<Rightarrow> nat \<Rightarrow> (nat \<Rightarrow> 's \<Rightarrow> error + 's) \<Rightarrow> 's \<Rightarrow> error + 's" where
  "for_idx i n body s =
     (if i < n
      then (case body i s of Inl e \<Rightarrow> Inl e | Inr s' \<Rightarrow> for_idx (Suc i) n body s')
      else Inr s)"
  by pat_completeness auto
termination
  by (relation "measure (\<lambda>(i, n, body, s). n - i)") auto

declare for_idx.simps [simp del]

text \<open>\<open>for (const x of xs) body\<close>, where the body may throw.\<close>

fun for_of :: "'a list \<Rightarrow> ('a \<Rightarrow> 's \<Rightarrow> error + 's) \<Rightarrow> 's \<Rightarrow> error + 's" where
  "for_of [] body s = Inr s"
| "for_of (x # xs) body s =
     (case body x s of Inl e \<Rightarrow> Inl e | Inr s' \<Rightarrow> for_of xs body s')"


section \<open>The data model\<close>

record VTTCue =
  startTime :: jsstring
  endTime :: jsstring
  textLines :: "jsstring list"
  originalIndex :: int

record VTTGroup =
  cues :: "VTTCue list"
  combinedText :: jsstring


section \<open>VTTParser.parse\<close>

text \<open>
  The open cue \<open>currentCue\<close>: the object literal of the source always has the three
  fields; \<open>null\<close> is \<open>None\<close>.
\<close>

record open_cue =
  oc_startTime :: jsstring
  oc_endTime :: jsstring
  oc_textLines :: "jsstring list"

record parse_state =
  ps_cues :: "VTTCue list"
  ps_currentCue :: "open_cue option"
  ps_cueIndex :: int

text \<open>
  \<open>if (currentCue && currentCue.textLines && currentCue.textLines.length > 0)
  cues.push({..., originalIndex: cueIndex++})\<close>
\<close>

definition save_previous :: "parse_state \<Rightarrow> parse_state" where
  "save_previous st =
     (case ps_currentCue st of
        None \<Rightarrow> st
      | Some cur \<Rightarrow>
          if length (oc_textLines cur) > 0
          then st\<lparr>ps_cues := ps_cues st @
                     [\<lparr>startTime = oc_startTime cur, endTime = oc_endTime cur,
                       textLines = oc_textLines cur, originalIndex = ps_cueIndex st\<rparr>],
                   ps_cueIndex := ps_cueIndex st + 1\<rparr>
          else st)"

text \<open>
  The body of the loop, after \<open>const line = lines[i].trim()\<close>. The destructuring
  \<open>[startTime, endTime] = line.split('-->').map(t => t.trim())\<close> would leave
  \<open>undefined\<close> in a field if the split had fewer than two pieces.
\<close>

definition parse_line :: "jsstring \<Rightarrow> parse_state \<Rightarrow> error + parse_state" where
  "parse_line line st =
     (if line = [] \<or> line = js ''WEBVTT'' then Inr st
      else if includes_str arrow line then
        (case map trim (split_str arrow line) of
           s # e # _ \<Rightarrow>
             Inr ((save_previous st)
                    \<lparr>ps_currentCue :=
                       Some \<lparr>oc_startTime = s, oc_endTime = e, oc_textLines = []\<rparr>\<rparr>)
         | _ \<Rightarrow> Inl UndefinedField)
      else (case ps_currentCue st of
              Some cur \<Rightarrow>
                Inr (st\<lparr>ps_currentCue :=
                          Some (cur\<lparr>oc_textLines := oc_textLines cur @ [line]\<rparr>)\<rparr>)
            | None \<Rightarrow> Inr st))"

definition parse_init :: parse_state where
  "parse_init = \<lparr>ps_cues = [], ps_currentCue = None, ps_cueIndex = 0\<rparr>"

text \<open>
  The last cue is pushed with \<open>originalIndex: cueIndex\<close>; the counter is dead after it,
  so \<open>save_previous\<close> gives the same list.
\<close>

definition parse :: "jsstring \<Rightarrow> error + VTTCue list" where
  "parse vttContent =
     (let lines = split_str [nl] vttContent in
      case for_idx 0 (length lines)
             (\<lambda>i st. case js_index lines i of
                        None \<Rightarrow> Inl TypeError
                      | Some l \<Rightarrow> parse_line (trim l) st)
             parse_init of
        Inl e \<Rightarrow> Inl e
      | Inr st \<Rightarrow> Inr (ps_cues (save_previous st)))"



section \<open>VTTParser.groupCuesIntoSentences\<close>

text \<open>
  \<open>SENTENCE_ENDINGS = /[.!?...]+$/\<close>. After \<open>?\<close> the class of the source file holds
  the three characters U+00E2, U+20AC and U+00A6 (the bytes C3 A2, E2 82 AC, C2 A6), not
  the ellipsis U+2026. Without the \<open>m\<close> flag \<open>$\<close> is the end of the string, so the test
  asks for a non-empty run of class characters at the end.
\<close>

definition SENTENCE_ENDINGS_class :: "jschar \<Rightarrow> bool" where
  "SENTENCE_ENDINGS_class c =
     (c = 0x2E \<or> c = 0x21 \<or> c = 0x3F \<or> c = 0xE2 \<or> c = 0x20AC \<or> c = 0xA6)"

definition SENTENCE_ENDINGS_test :: "jsstring \<Rightarrow> bool" where
  "SENTENCE_ENDINGS_test s = (length (takeWhile SENTENCE_ENDINGS_class (rev s)) \<ge> 1)"

text \<open>
  \<open>SENTENCE_STARTERS = /^[A-Z\-"'"]/\<close>: the letters A to Z, the hyphen, and the
  characters U+0022, U+0027 and U+0022 again.
\<close>

definition SENTENCE_STARTERS_class :: "jschar \<Rightarrow> bool" where
  "SENTENCE_STARTERS_class c =
     ((0x41 \<le> c \<and> c \<le> 0x5A) \<or> c = 0x2D \<or> c = 0x22 \<or> c = 0x27 \<or> c = 0x22)"

definition SENTENCE_STARTERS_test :: "jsstring \<Rightarrow> bool" where
  "SENTENCE_STARTERS_test s = (case s of [] \<Rightarrow> False | c # _ \<Rightarrow> SENTENCE_STARTERS_class c)"

definition combineCueTexts :: "VTTCue list \<Rightarrow> jsstring" where
  "combineCueTexts cs =
     trim (collapse_ws (join [sp] (map (\<lambda>cue. join [sp] (textLines cue)) cs)))"

text \<open>
  \<open>currentCue.textLines[currentCue.textLines.length - 1] || ''\<close>: index \<open>-1\<close> of an
  empty array is \<open>undefined\<close>, which \<open>||\<close> turns into the empty string.
\<close>

definition lastLine_of :: "VTTCue \<Rightarrow> jsstring" where
  "lastLine_of currentCue =
     (if length (textLines currentCue) = 0 then []
      else (case js_index (textLines currentCue) (length (textLines currentCue) - 1) of
              None \<Rightarrow> []
            | Some l \<Rightarrow> l))"

text \<open>\<open>nextCue.textLines[0] || ''\<close>\<close>

definition nextFirstLine_of :: "VTTCue \<Rightarrow> jsstring" where
  "nextFirstLine_of nextCue =
     (case js_index (textLines nextCue) 0 of None \<Rightarrow> [] | Some l \<Rightarrow> l)"

text \<open>\<open>hasSentenceEnding && nextStartsNewSentence\<close>\<close>

definition sentence_boundary :: "VTTCue \<Rightarrow> VTTCue \<Rightarrow> bool" where
  "sentence_boundary currentCue nextCue =
     (let hasSentenceEnding = SENTENCE_ENDINGS_test (trim (lastLine_of currentCue));
          nextStartsNewSentence = SENTENCE_STARTERS_test (trim (nextFirstLine_of nextCue))
      in hasSentenceEnding \<and> nextStartsNewSentence)"

record group_state =
  gs_groups :: "VTTGroup list"
  gs_currentGroup :: "VTTCue list"

definition close_group :: "group_state \<Rightarrow> VTTGroup list" where
  "close_group st =
     gs_groups st @
       [\<lparr>cues = gs_currentGroup st, combinedText = combineCueTexts (gs_currentGroup st)\<rparr>]"

text \<open>
  The body of the loop at index \<open>i\<close>: \<open>cues[i - 1].textLines\<close> and \<open>cues[i].textLines\<close>
  throw if the element is \<open>undefined\<close>.
\<close>

definition group_body :: "VTTCue list \<Rightarrow> nat \<Rightarrow> group_state \<Rightarrow> error + group_state" where
  "group_body cs i st =
     (case js_index cs (i - 1) of
        None \<Rightarrow> Inl TypeError
      | Some currentCue \<Rightarrow>
          (case js_index cs i of
             None \<Rightarrow> Inl TypeError
           | Some nextCue \<Rightarrow>
               if sentence_boundary currentCue nextCue
               then Inr \<lparr>gs_groups = close_group st, gs_currentGroup = [nextCue]\<rparr>
               else Inr (st\<lparr>gs_currentGroup := gs_currentGroup st @ [nextCue]\<rparr>)))"

text \<open>
  An \<open>undefined\<close> first element would make \<open>combineCueTexts\<close> throw when the group is
  closed.
\<close>

definition groupCuesIntoSentences :: "VTTCue list \<Rightarrow> error + VTTGroup list" where
  "groupCuesIntoSentences cs =
     (if length cs = 0 then Inr []
      else (case js_index cs 0 of
              None \<Rightarrow> Inl TypeError
            | Some c0 \<Rightarrow>
                (case for_idx 1 (length cs) (group_body cs)
                        \<lparr>gs_groups = [], gs_currentGroup = [c0]\<rparr> of
                   Inl e \<Rightarrow> Inl e
                 | Inr st \<Rightarrow>
                     if length (gs_currentGroup st) > 0 then Inr (close_group st)
                     else Inr (gs_groups st))))"


section \<open>VTTParser.redistributeTranslation\<close>

text \<open>\<open>group.cues.reduce((sum, cue) => sum + cue.textLines.length, 0)\<close>\<close>

definition totalLines_of :: "VTTGroup \<Rightarrow> nat" where
  "totalLines_of g = foldl (\<lambda>sum cue. sum + length (textLines cue)) 0 (cues g)"

definition translatedLines_of :: "jsstring \<Rightarrow> jsstring list" where
  "translatedLines_of translatedText =
     filter (\<lambda>line. length line > 0) (map trim (split_lines translatedText))"

text \<open>
  The search for the longest line: the state is \<open>(longestIndex, longestLength)\<close>.
  \<open>translatedLines[i].length\<close> throws if the element is \<open>undefined\<close>.
\<close>

definition find_longest :: "jsstring list \<Rightarrow> error + nat \<times> nat" where
  "find_longest translatedLines =
     for_idx 0 (length translatedLines)
       (\<lambda>i (longestIndex, longestLength).
          case js_index translatedLines i of
            None \<Rightarrow> Inl TypeError
          | Some l \<Rightarrow>
              if length l > longestLength then Inr (i, length l)
              else Inr (longestIndex, longestLength))
       (0, 0)"

text \<open>
  \<open>xs.splice(i, 1, a, b)\<close>: at \<open>i \<ge> xs.length\<close> nothing is deleted and the two items are
  appended, which is what \<open>take\<close> and \<open>drop\<close> give there.
\<close>

definition splice_two :: "'a list \<Rightarrow> nat \<Rightarrow> 'a \<Rightarrow> 'a \<Rightarrow> 'a list" where
  "splice_two xs i a b = take i xs @ [a, b] @ drop (Suc i) xs"

text \<open>
  The \<open>while\<close> loop of the under-fill case. \<open>Math.ceil(n / 2)\<close> is \<open>(n + 1) div 2\<close>.
  Besides the lines, the model returns how the loop ended (\<open>True\<close>: by \<open>break\<close>) and
  how many lines it has split; the source keeps neither.
\<close>

function underfill :: "nat \<Rightarrow> jsstring list \<Rightarrow> nat \<Rightarrow> error + jsstring list \<times> bool \<times> nat" where
  "underfill totalLines translatedLines n =
     (if length translatedLines < totalLines \<and> length translatedLines > 0
      then (case find_longest translatedLines of
              Inl e \<Rightarrow> Inl e
            | Inr (longestIndex, longestLength) \<Rightarrow>
                (case js_index translatedLines longestIndex of
                   None \<Rightarrow> Inl TypeError
                 | Some lineToSplit \<Rightarrow>
                     if length (split_str [sp] lineToSplit) > 1
                     then underfill totalLines
                            (splice_two translatedLines longestIndex
                               (join [sp] (take ((length (split_str [sp] lineToSplit) + 1) div 2)
                                             (split_str [sp] lineToSplit)))
                               (join [sp] (drop ((length (split_str [sp] lineToSplit) + 1) div 2)
                                             (split_str [sp] lineToSplit))))
                            (Suc n)
                     else Inr (translatedLines, True, n)))
      else Inr (translatedLines, False, n))"
  by pat_completeness auto
termination
  by (relation "measure (\<lambda>(totalLines, translatedLines, n). totalLines - length translatedLines)")
     (auto simp: splice_two_def)

declare underfill.simps [simp del]

text \<open>
  The over-fill case: \<open>excess = translatedLines.splice(totalLines - 1);
  translatedLines[totalLines - 1] = excess.join(' ')\<close>. With \<open>totalLines = 0\<close> the start
  \<open>-1\<close> counts from the end, so the splice removes the last line, and the assignment
  to index \<open>-1\<close> sets a property that is no element of the array.
\<close>

definition overfill :: "nat \<Rightarrow> jsstring list \<Rightarrow> jsstring list" where
  "overfill totalLines translatedLines =
     (if length translatedLines > totalLines
      then (if totalLines = 0 then butlast translatedLines
            else take (totalLines - 1) translatedLines @
                   [join [sp] (drop (totalLines - 1) translatedLines)])
      else translatedLines)"

text \<open>
  One slot of a cue: the state is \<open>(newTextLines, lineIndex)\<close> and a flag, which the
  source does not keep, that the fallback branch was taken. An \<open>undefined\<close> element
  would make the later \<open>line.trim()\<close> throw.
\<close>

definition fill_slot ::
  "jsstring list \<Rightarrow> jsstring list \<times> nat \<times> bool \<Rightarrow> error + jsstring list \<times> nat \<times> bool" where
  "fill_slot translatedLines st =
     (case st of (newTextLines, lineIndex, fallback) \<Rightarrow>
        if lineIndex < length translatedLines
        then (case js_index translatedLines lineIndex of
                None \<Rightarrow> Inl TypeError
              | Some l \<Rightarrow> Inr (newTextLines @ [l], lineIndex + 1, fallback))
        else Inr (newTextLines @ [[]], lineIndex, True))"

record refill_state =
  rf_updatedCues :: "VTTCue list"
  rf_lineIndex :: nat
  rf_fallback :: bool

definition refill_cue :: "jsstring list \<Rightarrow> VTTCue \<Rightarrow> refill_state \<Rightarrow> error + refill_state" where
  "refill_cue translatedLines cue st =
     (case for_idx 0 (length (textLines cue)) (\<lambda>i. fill_slot translatedLines)
             ([], rf_lineIndex st, rf_fallback st) of
        Inl e \<Rightarrow> Inl e
      | Inr (newTextLines, lineIndex, fallback) \<Rightarrow>
          Inr \<lparr>rf_updatedCues = rf_updatedCues st @
                  [cue\<lparr>textLines := filter (\<lambda>line. length (trim line) > 0) newTextLines\<rparr>],
               rf_lineIndex = lineIndex, rf_fallback = fallback\<rparr>)"

text \<open>
  The whole function. Besides the cues it returns, the model records what the source
  computes on the way: the translated lines after the under-fill and over-fill cases
  (the lines the refill walk reads), whether the under-fill loop ended by \<open>break\<close>, how
  many lines it split, and whether a slot got the fallback.
\<close>

record redistribute_run =
  run_cues :: "VTTCue list"
  run_lines :: "jsstring list"
  run_broke :: bool
  run_splits :: nat
  run_fallback :: bool

definition redistribute_run :: "VTTGroup \<Rightarrow> jsstring \<Rightarrow> error + redistribute_run" where
  "redistribute_run g translatedText =
     (let totalLines = totalLines_of g in
      case underfill totalLines (translatedLines_of translatedText) 0 of
        Inl e \<Rightarrow> Inl e
      | Inr (translatedLines, broke, n) \<Rightarrow>
          (case for_of (cues g) (refill_cue (overfill totalLines translatedLines))
                  \<lparr>rf_updatedCues = [], rf_lineIndex = 0, rf_fallback = False\<rparr> of
             Inl e \<Rightarrow> Inl e
           | Inr st \<Rightarrow>
               Inr \<lparr>run_cues = rf_updatedCues st,
                    run_lines = overfill totalLines translatedLines,
                    run_broke = broke, run_splits = n,
                    run_fallback = rf_fallback st\<rparr>))"

definition redistributeTranslation :: "VTTGroup \<Rightarrow> jsstring \<Rightarrow> error + VTTCue list" where
  "redistributeTranslation g translatedText =
     (case redistribute_run g translatedText of
        Inl e \<Rightarrow> Inl e
      | Inr r \<Rightarrow> Inr (run_cues r))"


section \<open>VTTParser.reconstructVTT\<close>

text \<open>
  \<open>Array.prototype.sort\<close> is stable, and the comparator \<open>a.originalIndex -
  b.originalIndex\<close> orders by the key, so the sorted copy is the stable sort by
  \<open>originalIndex\<close>. Nothing in this function indexes an array or calls a method on a
  value that may be \<open>undefined\<close>.
\<close>

definition cue_text :: "VTTCue \<Rightarrow> jsstring" where
  "cue_text cue =
     startTime cue @ js '' --> '' @ endTime cue @ [nl] @ join [nl] (textLines cue) @ [nl, nl]"

definition reconstructVTT :: "VTTCue list \<Rightarrow> jsstring" where
  "reconstructVTT cs =
     trim (fold (\<lambda>cue result. result @ cue_text cue) (sort_key originalIndex cs)
             (js ''WEBVTT'' @ [nl, nl]))"


section \<open>Auxiliary definitions for the proofs\<close>

text \<open>
  The loop body of \<open>parse\<close> without the error type: the proofs show that the error
  branch of \<open>parse_line\<close> is never taken and then work with this function.
\<close>

definition parse_step :: "jsstring \<Rightarrow> parse_state \<Rightarrow> parse_state" where
  "parse_step line st =
     (if line = [] \<or> line = js ''WEBVTT'' then st
      else if includes_str arrow line then
        (save_previous st)
          \<lparr>ps_currentCue :=
             Some \<lparr>oc_startTime = trim (hd (split_str arrow line)),
                   oc_endTime = trim (hd (tl (split_str arrow line))),
                   oc_textLines = []\<rparr>\<rparr>
      else (case ps_currentCue st of
              Some cur \<Rightarrow>
                st\<lparr>ps_currentCue := Some (cur\<lparr>oc_textLines := oc_textLines cur @ [line]\<rparr>)\<rparr>
            | None \<Rightarrow> st))"

definition parse_lines :: "jsstring list \<Rightarrow> parse_state \<Rightarrow> parse_state" where
  "parse_lines ls st = fold (\<lambda>l. parse_step (trim l)) ls st"

text \<open>The invariant of the loop of \<open>parse\<close> on the counter.\<close>

definition indexed :: "parse_state \<Rightarrow> bool" where
  "indexed st =
     (map originalIndex (ps_cues st) = map int [0..<length (ps_cues st)]
      \<and> ps_cueIndex st = int (length (ps_cues st)))"


text \<open>
  The loop of \<open>groupCuesIntoSentences\<close> as a recursion over the cues that follow
  \<open>prev\<close>.
\<close>

fun group_from :: "VTTCue \<Rightarrow> VTTCue list \<Rightarrow> group_state \<Rightarrow> group_state" where
  "group_from prev [] st = st"
| "group_from prev (next # rest) st =
     group_from next rest
       (if sentence_boundary prev next
        then \<lparr>gs_groups = close_group st, gs_currentGroup = [next]\<rparr>
        else st\<lparr>gs_currentGroup := gs_currentGroup st @ [next]\<rparr>)"

text \<open>Cutting a list into consecutive runs of the given lengths.\<close>

fun runs_of :: "nat list \<Rightarrow> 'a list \<Rightarrow> 'a list list" where
  "runs_of [] xs = []"
| "runs_of (n # ns) xs = take n xs # runs_of ns (drop n xs)"


text \<open>
  The two conditions as the specification words them: the trimmed line ends in one or
  more of \<open>.\<close>, \<open>!\<close>, \<open>?\<close> or the ellipsis U+2026; the trimmed line begins with an
  uppercase letter, a hyphen, or a straight or curly quotation mark. Of the uppercase
  letters beyond A to Z the definition counts those of Latin-1, U+00C0 to U+00D6 and
  U+00D8 to U+00DE.
\<close>

definition claimed_sentence_ending :: "jsstring \<Rightarrow> bool" where
  "claimed_sentence_ending s =
     (s \<noteq> [] \<and> (last s = 0x2E \<or> last s = 0x21 \<or> last s = 0x3F \<or> last s = 0x2026))"

definition claimed_sentence_starting :: "jsstring \<Rightarrow> bool" where
  "claimed_sentence_starting s =
     (case s of
        [] \<Rightarrow> False
      | c # _ \<Rightarrow> (0x41 \<le> c \<and> c \<le> 0x5A) \<or> (0xC0 \<le> c \<and> c \<le> 0xD6)
                 \<or> (0xD8 \<le> c \<and> c \<le> 0xDE) \<or> c = 0x2D \<or> c = 0x22 \<or> c = 0x27
                 \<or> c = 0x201C \<or> c = 0x201D \<or> c = 0x2018 \<or> c = 0x2019)"


text \<open>
  The search loop of \<open>find_longest\<close> as a recursion over the lines from index \<open>i\<close> on.
\<close>

fun longest_from :: "nat \<Rightarrow> jsstring list \<Rightarrow> nat \<times> nat \<Rightarrow> nat \<times> nat" where
  "longest_from i [] st = st"
| "longest_from i (l # ls) st =
     longest_from (Suc i) ls (if length l > snd st then (i, length l) else st)"

text \<open>
  The under-fill step as the specification words it: the longest line, the first one
  on equal length, is split on single spaces; with at least two words it is replaced
  in place by its first \<open>ceil(wordCount / 2)\<close> words and its remaining words, each joined
  with single spaces; otherwise there is no step.
\<close>

primrec max_length :: "'a list list \<Rightarrow> nat" where
  "max_length [] = 0"
| "max_length (x # xs) = max (length x) (max_length xs)"

definition first_max_index :: "'a list list \<Rightarrow> nat" where
  "first_max_index xs = length (takeWhile (\<lambda>x. length x \<noteq> max_length xs) xs)"

definition claimed_split_longest :: "jsstring list \<Rightarrow> jsstring list option" where
  "claimed_split_longest ls =
     (let i = first_max_index ls;
          ws = split_str [sp] (ls ! i);
          k = (length ws + 1) div 2
      in if length ws \<ge> 2
         then Some (take i ls @ [join [sp] (take k ws), join [sp] (drop k ws)] @ drop (Suc i) ls)
         else None)"


text \<open>
  What \<open>parse\<close> guarantees of the cues it returns, beyond their indices: a timestamp is
  trimmed and has neither a line break nor the separator in it; a text line is moreover
  not empty and not the header; a cue has at least one text line.
\<close>

definition stamp_ok :: "jsstring \<Rightarrow> bool" where
  "stamp_ok s = (trim s = s \<and> \<not> includes_str arrow s \<and> nl \<notin> set s)"

definition line_ok :: "jsstring \<Rightarrow> bool" where
  "line_ok l = (stamp_ok l \<and> l \<noteq> [] \<and> l \<noteq> js ''WEBVTT'')"

definition cue_ok :: "VTTCue \<Rightarrow> bool" where
  "cue_ok c = (stamp_ok (startTime c) \<and> stamp_ok (endTime c)
     \<and> textLines c \<noteq> [] \<and> list_all line_ok (textLines c))"

definition open_ok :: "open_cue \<Rightarrow> bool" where
  "open_ok oc = (stamp_ok (oc_startTime oc) \<and> stamp_ok (oc_endTime oc)
     \<and> list_all line_ok (oc_textLines oc))"

definition state_ok :: "parse_state \<Rightarrow> bool" where
  "state_ok st = (list_all cue_ok (ps_cues st)
     \<and> (case ps_currentCue st of None \<Rightarrow> True | Some oc \<Rightarrow> open_ok oc))"


text \<open>
  The lines that \<open>parse\<close> does not skip as empty: the trimmed lines of the text that
  are not empty.
\<close>

definition nonblank_lines :: "jsstring \<Rightarrow> jsstring list" where
  "nonblank_lines s = filter (\<lambda>l. l \<noteq> []) (map trim (split_str [nl] s))"

text \<open>The timestamp line that \<open>reconstructVTT\<close> writes for a cue.\<close>

definition stamp_line :: "VTTCue \<Rightarrow> jsstring" where
  "stamp_line c = startTime c @ js '' --> '' @ endTime c"


text \<open>The boundary test between two cues as the specification words it.\<close>

definition claimed_boundary :: "VTTCue \<Rightarrow> VTTCue \<Rightarrow> bool" where
  "claimed_boundary prev next =
     (claimed_sentence_ending (trim (lastLine_of prev))
      \<and> claimed_sentence_starting (trim (nextFirstLine_of next)))"

text \<open>
  The two conditions that the code agrees with: the line ends in \<open>.\<close>, \<open>!\<close> or \<open>?\<close>;
  the line begins with a letter A to Z, a hyphen, or one of the straight quotation
  marks \<open>"\<close> and \<open>'\<close>.
\<close>

definition plain_sentence_ending :: "jsstring \<Rightarrow> bool" where
  "plain_sentence_ending s = (s \<noteq> [] \<and> (last s = 0x2E \<or> last s = 0x21 \<or> last s = 0x3F))"

definition plain_sentence_starting :: "jsstring \<Rightarrow> bool" where
  "plain_sentence_starting s =
     (case s of
        [] \<Rightarrow> False
      | c # _ \<Rightarrow> (0x41 \<le> c \<and> c \<le> 0x5A) \<or> c = 0x2D \<or> c = 0x22 \<or> c = 0x27)"

definition plain_boundary :: "VTTCue \<Rightarrow> VTTCue \<Rightarrow> bool" where
  "plain_boundary prev next =
     (plain_sentence_ending (trim (lastLine_of prev))
      \<and> plain_sentence_starting (trim (nextFirstLine_of next)))"

text \<open>
  The lines on whose ending the damaged class of the source decides: those that end in
  the ellipsis U+2026 or in one of the three characters U+00E2, U+20AC, U+00A6 that the
  class holds in its place.
\<close>

definition ellipsis_like_ending :: "jsstring \<Rightarrow> bool" where
  "ellipsis_like_ending s =
     (s \<noteq> [] \<and> (last s = 0x2026 \<or> last s = 0xE2 \<or> last s = 0x20AC \<or> last s = 0xA6))"

definition plain_endings :: "VTTCue list \<Rightarrow> bool" where
  "plain_endings cs = list_all (\<lambda>c. \<not> ellipsis_like_ending (trim (lastLine_of c))) cs"

text \<open>
  Cutting a sequence between every adjacent pair that the test \<open>b\<close> separates; a pair
  that it does not separate stays in one run.
\<close>

fun cut_at :: "('a \<Rightarrow> 'a \<Rightarrow> bool) \<Rightarrow> 'a list \<Rightarrow> 'a list list" where
  "cut_at b [] = []"
| "cut_at b [x] = [[x]]"
| "cut_at b (x # y # ys) =
     (if b x y then [x] # cut_at b (y # ys)
      else (case cut_at b (y # ys) of
              g # gs \<Rightarrow> (x # g) # gs
            | [] \<Rightarrow> [[x]]))"


text \<open>
  The under-fill case as the specification words it: as long as at least one line
  exists and the lines are fewer than the slots, the step above is done again; when
  there is no step (the longest line has one word) the lines stay as they are, short of
  the slot count. The first argument of \<open>split_until\<close> bounds the number of turns;
  \<open>claimed_underfill\<close> gives it the slot count, which no run of the case exceeds, since
  every step adds a line.
\<close>

primrec split_until :: "nat \<Rightarrow> nat \<Rightarrow> jsstring list \<Rightarrow> jsstring list" where
  "split_until 0 slots ls = ls"
| "split_until (Suc k) slots ls =
     (if 0 < length ls \<and> length ls < slots
      then (case claimed_split_longest ls of
              Some ls' \<Rightarrow> split_until k slots ls'
            | None \<Rightarrow> ls)
      else ls)"

definition claimed_underfill :: "nat \<Rightarrow> jsstring list \<Rightarrow> jsstring list" where
  "claimed_underfill slots ls = split_until slots slots ls"


section \<open>Loops over arrays\<close>

lemma for_idx_for_of:
  "for_idx i (length xs)
     (\<lambda>i s. case js_index xs i of None \<Rightarrow> Inl TypeError | Some x \<Rightarrow> f x s) s
   = for_of (drop i xs) f s"
proof (induction "length xs - i" arbitrary: i s)
  case 0
  then show ?case by (simp add: for_idx.simps)
next
  case (Suc k)
  then have lt: "i < length xs" by simp
  then have d: "drop i xs = xs ! i # drop (Suc i) xs"
    by (simp add: Cons_nth_drop_Suc)
  from Suc have k: "k = length xs - Suc i" by simp
  show ?case
    using lt Suc.hyps(1) [OF k]
    by (subst for_idx.simps) (simp add: d js_index_def split: sum.splits)
qed

lemma for_of_pure:
  "(\<And>x s. f x s = Inr (g x s)) \<Longrightarrow> for_of xs f s = Inr (fold g xs s)"
  by (induction xs arbitrary: s) simp_all


section \<open>The parser never leaves a field undefined\<close>

lemma split_str_not_Nil: "split_str sep s \<noteq> []"
  by (induction sep s rule: split_str.induct) (auto split: list.splits)

lemma includes_split_two:
  "sep \<noteq> [] \<Longrightarrow> includes_str sep s \<Longrightarrow> \<exists>a b r. split_str sep s = a # b # r"
proof (induction sep s rule: split_str.induct)
  case (1 sep)
  then show ?case by simp
next
  case (2 sep c cs)
  show ?case
  proof (cases "prefix sep (c # cs)")
    case True
    obtain a r where "split_str sep (drop (length sep) (c # cs)) = a # r"
      using split_str_not_Nil [of sep "drop (length sep) (c # cs)"] by (cases "split_str sep (drop (length sep) (c # cs))") auto
    with True 2(3) show ?thesis by simp
  next
    case False
    with 2(4) have "includes_str sep cs" by simp
    with 2(2) [OF _ 2(3)] False obtain a b r where "split_str sep cs = a # b # r" by auto
    with False show ?thesis by simp
  qed
qed

lemma arrow_not_Nil: "arrow \<noteq> []"
  by (simp add: arrow_def)

lemma parse_line_step: "parse_line line st = Inr (parse_step line st)"
proof (cases "includes_str arrow line")
  case True
  from includes_split_two [OF arrow_not_Nil True]
  obtain a b r where "split_str arrow line = a # b # r" by blast
  with True show ?thesis by (simp add: parse_line_def parse_step_def)
next
  case False
  then show ?thesis by (simp add: parse_line_def parse_step_def split: option.splits)
qed

lemma parse_eq:
  "parse s = Inr (ps_cues (save_previous (parse_lines (split_str [nl] s) parse_init)))"
proof -
  have "for_of ls (\<lambda>l. parse_line (trim l)) st = Inr (parse_lines ls st)" for ls st
    unfolding parse_lines_def by (rule for_of_pure) (rule parse_line_step)
  then show ?thesis
    using for_idx_for_of [of 0 "split_str [nl] s" "\<lambda>l. parse_line (trim l)" parse_init]
    by (simp add: parse_def)
qed

lemma indexed_save_previous: "indexed st \<Longrightarrow> indexed (save_previous st)"
  by (auto simp: indexed_def save_previous_def split: option.splits)

lemma indexed_parse_step: "indexed st \<Longrightarrow> indexed (parse_step l st)"
  using indexed_save_previous [of st]
  by (auto simp: parse_step_def indexed_def split: option.splits)

lemma indexed_parse_lines: "indexed st \<Longrightarrow> indexed (parse_lines ls st)"
  unfolding parse_lines_def
  by (induction ls arbitrary: st) (simp_all add: indexed_parse_step)

lemma indexed_init: "indexed parse_init"
  by (simp add: indexed_def parse_init_def)


section \<open>The grouping loop\<close>

lemma group_loop_from:
  "1 \<le> i \<Longrightarrow> i \<le> length cs \<Longrightarrow>
   for_idx i (length cs) (group_body cs) st = Inr (group_from (cs ! (i - 1)) (drop i cs) st)"
proof (induction "length cs - i" arbitrary: i st)
  case 0
  then show ?case by (simp add: for_idx.simps)
next
  case (Suc k)
  then have lt: "i < length cs" by simp
  then have d: "drop i cs = cs ! i # drop (Suc i) cs"
    by (simp add: Cons_nth_drop_Suc)
  from Suc have k: "k = length cs - Suc i" by simp
  from lt Suc.prems have b:
    "group_body cs i st =
       Inr (if sentence_boundary (cs ! (i - 1)) (cs ! i)
            then \<lparr>gs_groups = close_group st, gs_currentGroup = [cs ! i]\<rparr>
            else st\<lparr>gs_currentGroup := gs_currentGroup st @ [cs ! i]\<rparr>)"
    by (simp add: group_body_def js_index_def)
  have ih: "for_idx (Suc i) (length cs) (group_body cs) st' =
      Inr (group_from (cs ! i) (drop (Suc i) cs) st')" for st'
    using Suc.hyps(1) [of "Suc i" st'] k lt by simp
  show ?case
    using lt by (subst for_idx.simps) (simp add: d b ih)
qed

lemma group_from_open: "gs_currentGroup st \<noteq> [] \<Longrightarrow> gs_currentGroup (group_from p rest st) \<noteq> []"
  by (induction rest arbitrary: p st) simp_all

lemma group_eq:
  "groupCuesIntoSentences (c # cs) =
     Inr (close_group (group_from c cs \<lparr>gs_groups = [], gs_currentGroup = [c]\<rparr>))"
  using group_loop_from [of 1 "c # cs" "\<lparr>gs_groups = [], gs_currentGroup = [c]\<rparr>"]
    group_from_open [of "\<lparr>gs_groups = [], gs_currentGroup = [c]\<rparr>" c cs]
  by (simp add: groupCuesIntoSentences_def js_index_def)

lemma group_from_concat:
  "concat (map cues (close_group (group_from p rest st)))
   = concat (map cues (gs_groups st)) @ gs_currentGroup st @ rest"
  by (induction rest arbitrary: p st) (simp_all add: close_group_def)

lemma group_from_nonempty:
  "gs_currentGroup st \<noteq> [] \<Longrightarrow> [] \<notin> set (map cues (gs_groups st)) \<Longrightarrow>
   [] \<notin> set (map cues (close_group (group_from p rest st)))"
  by (induction rest arbitrary: p st) (simp_all add: close_group_def)

lemma runs_of_concat: "runs_of (map length xss) (concat xss) = xss"
  by (induction xss) simp_all


section \<open>The search for the longest line\<close>

lemma find_longest_from:
  "for_idx i (length ls)
     (\<lambda>i (longestIndex, longestLength).
          case js_index ls i of
            None \<Rightarrow> Inl TypeError
          | Some l \<Rightarrow>
              if length l > longestLength then Inr (i, length l)
              else Inr (longestIndex, longestLength)) st
   = Inr (longest_from i (drop i ls) st)"
proof (induction "length ls - i" arbitrary: i st)
  case 0
  then show ?case by (simp add: for_idx.simps)
next
  case (Suc k)
  then have lt: "i < length ls" by simp
  then have d: "drop i ls = ls ! i # drop (Suc i) ls"
    by (simp add: Cons_nth_drop_Suc)
  from Suc have k: "k = length ls - Suc i" by simp
  show ?case
    using lt Suc.hyps(1) [OF k]
    by (subst for_idx.simps) (simp add: d js_index_def split: prod.splits)
qed

lemma max_length_append: "max_length (xs @ ys) = max (max_length xs) (max_length ys)"
  by (induction xs) simp_all

lemma max_length_ge: "x \<in> set xs \<Longrightarrow> length x \<le> max_length xs"
  by (induction xs) auto

lemma max_length_attained: "xs \<noteq> [] \<Longrightarrow> \<exists>x\<in>set xs. length x = max_length xs"
proof (induction xs)
  case Nil
  then show ?case by simp
next
  case (Cons a xs)
  show ?case
  proof (cases "xs = []")
    case True
    then show ?thesis by simp
  next
    case False
    with Cons obtain x where "x \<in> set xs" "length x = max_length xs" by blast
    then show ?thesis by (cases "length a \<le> max_length xs") (auto simp: max_def)
  qed
qed

lemma first_max_index_less: "xs \<noteq> [] \<Longrightarrow> first_max_index xs < length xs"
proof -
  assume "xs \<noteq> []"
  then obtain x where x: "x \<in> set xs" "length x = max_length xs"
    using max_length_attained by blast
  then have "takeWhile (\<lambda>x. length x \<noteq> max_length xs) xs \<noteq> xs"
    by (auto simp: takeWhile_eq_all_conv)
  moreover have "length (takeWhile (\<lambda>x. length x \<noteq> max_length xs) xs) \<le> length xs"
    by (rule length_takeWhile_le)
  ultimately show ?thesis
    unfolding first_max_index_def
    by (metis le_neq_implies_less takeWhile_eq_take take_all_iff order_refl)
qed

lemma first_max_index_snoc:
  "first_max_index (pre @ [l]) =
     (if length l > max_length pre then length pre else first_max_index pre)"
proof (cases "length l > max_length pre")
  case True
  then have m: "max_length (pre @ [l]) = length l"
    by (simp add: max_length_append)
  have "\<And>x. x \<in> set pre \<Longrightarrow> length x \<noteq> length l"
    using True max_length_ge by fastforce
  then have "takeWhile (\<lambda>x. length x \<noteq> length l) (pre @ [l]) = pre"
    by (simp add: takeWhile_append2)
  with True m show ?thesis by (simp add: first_max_index_def)
next
  case False
  then have m: "max_length (pre @ [l]) = max_length pre"
    by (simp add: max_length_append)
  show ?thesis
  proof (cases "pre = []")
    case True
    with False show ?thesis by (simp add: first_max_index_def)
  next
    case ne: False
    then obtain x where "x \<in> set pre" "length x = max_length pre"
      using max_length_attained by blast
    then have "takeWhile (\<lambda>x. length x \<noteq> max_length pre) (pre @ [l])
        = takeWhile (\<lambda>x. length x \<noteq> max_length pre) pre"
      by (simp add: takeWhile_append1)
    with False m show ?thesis by (simp add: first_max_index_def)
  qed
qed

lemma longest_from_first_max:
  "longest_from (length pre) post (first_max_index pre, max_length pre)
   = (first_max_index (pre @ post), max_length (pre @ post))"
proof (induction post arbitrary: pre)
  case Nil
  then show ?case by simp
next
  case (Cons l post)
  have s: "(if length l > max_length pre then (length pre, length l)
            else (first_max_index pre, max_length pre))
         = (first_max_index (pre @ [l]), max_length (pre @ [l]))"
    by (auto simp: first_max_index_snoc max_length_append)
  have "longest_from (length pre) (l # post) (first_max_index pre, max_length pre)
      = longest_from (Suc (length pre)) post
          (if length l > max_length pre then (length pre, length l)
           else (first_max_index pre, max_length pre))"
    by simp
  also have "\<dots> = longest_from (Suc (length pre)) post
          (first_max_index (pre @ [l]), max_length (pre @ [l]))"
    by (simp only: s)
  also have "\<dots> = (first_max_index ((pre @ [l]) @ post), max_length ((pre @ [l]) @ post))"
    using Cons [of "pre @ [l]"] by simp
  finally show ?case by simp
qed

lemma find_longest_eq: "find_longest ls = Inr (first_max_index ls, max_length ls)"
  using find_longest_from [of 0 ls "(0, 0)"] longest_from_first_max [of "[]" ls]
  by (simp add: find_longest_def first_max_index_def)

section \<open>The under-fill loop\<close>

lemma split_str_length: "length (split_str sep s) \<ge> 1"
  using split_str_not_Nil [of sep s] by (cases "split_str sep s") simp_all

lemma underfill_step:
  "0 < length ls \<Longrightarrow> length ls < slots \<Longrightarrow>
   underfill slots ls n =
     (case claimed_split_longest ls of
        Some ls' \<Rightarrow> underfill slots ls' (Suc n)
      | None \<Rightarrow> Inr (ls, True, n))"
  using first_max_index_less [of ls]
  by (subst underfill.simps)
     (simp add: find_longest_eq js_index_def claimed_split_longest_def splice_two_def Let_def)

lemma underfill_exit:
  "\<not> (0 < length ls \<and> length ls < slots) \<Longrightarrow> underfill slots ls n = Inr (ls, False, n)"
  by (subst underfill.simps) auto

lemma claimed_split_longest_length:
  "ls \<noteq> [] \<Longrightarrow> claimed_split_longest ls = Some ls' \<Longrightarrow> length ls' = Suc (length ls)"
  using first_max_index_less [of ls]
  by (auto simp: claimed_split_longest_def Let_def split: if_splits)

lemma claimed_split_longest_None:
  "claimed_split_longest ls = None \<longleftrightarrow>
     length (split_str [sp] (ls ! first_max_index ls)) = 1"
  using split_str_length [of "[sp]" "ls ! first_max_index ls"]
  by (auto simp: claimed_split_longest_def Let_def)

lemma underfill_result:
  "\<exists>ls' b n'. underfill slots ls n = Inr (ls', b, n')
     \<and> n \<le> n' \<and> n' - n \<le> slots - length ls
     \<and> length ls' = length ls + (n' - n)
     \<and> (b \<longleftrightarrow> 0 < length ls' \<and> length ls' < slots)
     \<and> (b \<longrightarrow> claimed_split_longest ls' = None)"
proof (induction "slots - length ls" arbitrary: ls n rule: less_induct)
  case less
  show ?case
  proof (cases "0 < length ls \<and> length ls < slots")
    case False
    then show ?thesis using underfill_exit [OF False, of n] by auto
  next
    case True
    show ?thesis
    proof (cases "claimed_split_longest ls")
      case None
      with True show ?thesis using underfill_step [of ls slots n] by auto
    next
      case (Some ls1)
      with True have len: "length ls1 = Suc (length ls)"
        using claimed_split_longest_length [of ls ls1] by auto
      have "slots - length ls1 < slots - length ls" using len True by linarith
      from less [OF this, of "Suc n"] obtain ls' b n' where
        r: "underfill slots ls1 (Suc n) = Inr (ls', b, n')"
           "Suc n \<le> n'" "n' - Suc n \<le> slots - length ls1"
           "length ls' = length ls1 + (n' - Suc n)"
           "b \<longleftrightarrow> 0 < length ls' \<and> length ls' < slots"
           "b \<longrightarrow> claimed_split_longest ls' = None"
        by blast
      have "underfill slots ls n = Inr (ls', b, n')"
        using underfill_step [of ls slots n] True Some r(1) by simp
      moreover have "n \<le> n'" using r(2) by simp
      moreover have "n' - n \<le> slots - length ls" using r(2,3) len True by linarith
      moreover have "length ls' = length ls + (n' - n)" using r(2,4) len by linarith
      ultimately show ?thesis using r(5,6) by blast
    qed
  qed
qed


section \<open>The refill walk\<close>

lemma fill_slots:
  "li \<le> length ls \<Longrightarrow>
   for_idx i n (\<lambda>i. fill_slot ls) (new, li, fb)
   = Inr (new @ take (n - i) (drop li ls) @ replicate ((n - i) - (length ls - li)) [],
          min (li + (n - i)) (length ls),
          fb \<or> li + (n - i) > length ls)"
proof (induction "n - i" arbitrary: i new li fb)
  case 0
  then show ?case by (simp add: for_idx.simps)
next
  case (Suc k)
  then have lt: "i < n" and k: "k = n - Suc i" and nk: "n - i = Suc k" by simp_all
  show ?case
  proof (cases "li < length ls")
    case True
    then have d: "drop li ls = ls ! li # drop (Suc li) ls"
      by (simp add: Cons_nth_drop_Suc)
    from True have s: "fill_slot ls (new, li, fb) = Inr (new @ [ls ! li], li + 1, fb)"
      by (simp add: fill_slot_def js_index_def)
    from True have le: "li + 1 \<le> length ls" by simp
    show ?thesis
      using lt Suc.hyps(1) [OF k le, of "new @ [ls ! li]" fb] True
      by (subst for_idx.simps) (auto simp: s nk d k [symmetric] min_def)
  next
    case False
    with Suc.prems have e: "li = length ls" by simp
    have s: "fill_slot ls (new, length ls, fb) = Inr (new @ [[]], length ls, True)"
      by (simp add: fill_slot_def)
    show ?thesis
      using lt Suc.hyps(1) [OF k Suc.prems, of "new @ [[]]" True] e
      by (subst for_idx.simps) (auto simp: s nk k [symmetric] replicate_append_same)
  qed
qed

lemma refill_cue_eq:
  "rf_lineIndex st \<le> length ls \<Longrightarrow>
   refill_cue ls cue st =
     Inr \<lparr>rf_updatedCues = rf_updatedCues st @
             [cue\<lparr>textLines := filter (\<lambda>line. length (trim line) > 0)
                 (take (length (textLines cue)) (drop (rf_lineIndex st) ls) @
                  replicate (length (textLines cue) - (length ls - rf_lineIndex st)) [])\<rparr>],
          rf_lineIndex = min (rf_lineIndex st + length (textLines cue)) (length ls),
          rf_fallback = (rf_fallback st \<or> rf_lineIndex st + length (textLines cue) > length ls)\<rparr>"
  using fill_slots [of "rf_lineIndex st" ls 0 "length (textLines cue)" "[]" "rf_fallback st"]
  by (simp add: refill_cue_def)

lemma refill_all:
  "rf_lineIndex st \<le> length ls \<Longrightarrow>
   \<exists>st'. for_of cs (refill_cue ls) st = Inr st'
     \<and> map startTime (rf_updatedCues st') = map startTime (rf_updatedCues st) @ map startTime cs
     \<and> map endTime (rf_updatedCues st') = map endTime (rf_updatedCues st) @ map endTime cs
     \<and> map originalIndex (rf_updatedCues st')
         = map originalIndex (rf_updatedCues st) @ map originalIndex cs
     \<and> (rf_fallback st' \<longleftrightarrow>
          rf_fallback st
          \<or> rf_lineIndex st + sum_list (map (\<lambda>c. length (textLines c)) cs) > length ls)"
proof (induction cs arbitrary: st)
  case Nil
  then show ?case by simp
next
  case (Cons c cs)
  let ?st1 = "\<lparr>rf_updatedCues = rf_updatedCues st @
             [c\<lparr>textLines := filter (\<lambda>line. length (trim line) > 0)
                 (take (length (textLines c)) (drop (rf_lineIndex st) ls) @
                  replicate (length (textLines c) - (length ls - rf_lineIndex st)) [])\<rparr>],
          rf_lineIndex = min (rf_lineIndex st + length (textLines c)) (length ls),
          rf_fallback = (rf_fallback st \<or> rf_lineIndex st + length (textLines c) > length ls)\<rparr>"
  have 1: "refill_cue ls c st = Inr ?st1"
    by (rule refill_cue_eq [OF Cons.prems])
  have "rf_lineIndex ?st1 \<le> length ls" by simp
  from Cons.IH [OF this] obtain st' where
    r: "for_of cs (refill_cue ls) ?st1 = Inr st'"
       "map startTime (rf_updatedCues st') = map startTime (rf_updatedCues ?st1) @ map startTime cs"
       "map endTime (rf_updatedCues st') = map endTime (rf_updatedCues ?st1) @ map endTime cs"
       "map originalIndex (rf_updatedCues st')
         = map originalIndex (rf_updatedCues ?st1) @ map originalIndex cs"
       "rf_fallback st' \<longleftrightarrow>
          rf_fallback ?st1
          \<or> rf_lineIndex ?st1 + sum_list (map (\<lambda>c. length (textLines c)) cs) > length ls"
    by blast
  have "for_of (c # cs) (refill_cue ls) st = Inr st'"
    using 1 r(1) by simp
  moreover have "rf_fallback st' \<longleftrightarrow>
          rf_fallback st
          \<or> rf_lineIndex st + sum_list (map (\<lambda>c. length (textLines c)) (c # cs)) > length ls"
    using r(5) Cons.prems by (auto simp: min_def)
  ultimately show ?case using r(2,3,4) by auto
qed

lemma totalLines_of_sum:
  "totalLines_of g = sum_list (map (\<lambda>c. length (textLines c)) (cues g))"
proof -
  have "foldl (\<lambda>sum cue. sum + length (textLines cue)) a cs
      = a + sum_list (map (\<lambda>c. length (textLines c)) cs)" for a cs
    by (induction cs arbitrary: a) simp_all
  from this [of 0 "cues g"] show ?thesis by (simp add: totalLines_of_def)
qed

text \<open>
  What \<open>redistribute_run\<close> returns, in terms of the result of the under-fill loop.
\<close>

lemma redistribute_run_result:
  assumes "underfill (totalLines_of g) (translatedLines_of t) 0 = Inr (ls, b, n)"
  shows "\<exists>r. redistribute_run g t = Inr r
     \<and> run_lines r = overfill (totalLines_of g) ls \<and> run_broke r = b \<and> run_splits r = n
     \<and> (run_fallback r \<longleftrightarrow> totalLines_of g > length (overfill (totalLines_of g) ls))
     \<and> map startTime (run_cues r) = map startTime (cues g)
     \<and> map endTime (run_cues r) = map endTime (cues g)
     \<and> map originalIndex (run_cues r) = map originalIndex (cues g)"
proof -
  let ?st = "\<lparr>rf_updatedCues = [], rf_lineIndex = 0, rf_fallback = False\<rparr>"
  have "rf_lineIndex ?st \<le> length (overfill (totalLines_of g) ls)" by simp
  from refill_all [OF this, of "cues g"] obtain st' where
    r: "for_of (cues g) (refill_cue (overfill (totalLines_of g) ls)) ?st = Inr st'"
       "map startTime (rf_updatedCues st') = map startTime (cues g)"
       "map endTime (rf_updatedCues st') = map endTime (cues g)"
       "map originalIndex (rf_updatedCues st') = map originalIndex (cues g)"
       "rf_fallback st' \<longleftrightarrow> totalLines_of g > length (overfill (totalLines_of g) ls)"
    by (auto simp: totalLines_of_sum)
  show ?thesis
    using assms r by (simp add: redistribute_run_def Let_def)
qed


section \<open>The examples of the specification\<close>

lemma four_words_lines:
  "translatedLines_of (js ''one two three four'') = [js ''one two three four'']"
  by (simp add: translatedLines_of_def js_def trim_def is_ws_def nl_def cr_def)

lemma four_words_split:
  "claimed_split_longest [js ''one two three four'']
   = Some [js ''one two'', js ''three four'']"
  by (simp add: claimed_split_longest_def first_max_index_def js_def sp_def Let_def)

lemma four_words_underfill:
  "underfill 2 [js ''one two three four''] 0
   = Inr ([js ''one two'', js ''three four''], False, 1)"
  by (simp add: underfill_step four_words_split underfill_exit)

lemma abc_lines:
  "translatedLines_of (js ''A'' @ [nl] @ js ''B'' @ [nl] @ js ''C'') = [js ''A'', js ''B'', js ''C'']"
  by (simp add: translatedLines_of_def js_def trim_def is_ws_def nl_def cr_def)

section \<open>The header of the reconstructed text\<close>

lemma trim_append_head:
  assumes "a \<noteq> []" "\<not> is_ws (hd a)" "\<not> is_ws (last a)"
  shows "trim (a @ b) = a @ rev (dropWhile is_ws (rev b))"
proof -
  from assms(1,2) have 1: "dropWhile is_ws (a @ b) = a @ b"
    by (cases a) simp_all
  from assms(1,3) have 2: "dropWhile is_ws (rev a) = rev a"
    by (cases a rule: rev_cases) simp_all
  have "dropWhile is_ws (rev b @ rev a) = dropWhile is_ws (rev b) @ rev a"
    by (simp add: dropWhile_append 2)
  then show ?thesis by (simp add: trim_def 1)
qed

lemma fold_append_concat:
  "fold (\<lambda>x r. r @ f x) xs a = a @ concat (map f xs)"
  by (induction xs arbitrary: a) simp_all

lemma reconstructVTT_header: "prefix (js ''WEBVTT'') (reconstructVTT cs)"
proof -
  have "\<not> is_ws (hd (js ''WEBVTT''))" "\<not> is_ws (last (js ''WEBVTT''))" "js ''WEBVTT'' \<noteq> []"
    by (simp_all add: js_def is_ws_def)
  from trim_append_head [OF this(3,1,2)] show ?thesis
    by (simp add: reconstructVTT_def fold_append_concat)
qed


section \<open>Trimming and splitting\<close>

lemma trim_Cons_ws: "is_ws c \<Longrightarrow> trim (c # s) = trim s"
  by (simp add: trim_def)

lemma trim_snoc_ws: "is_ws c \<Longrightarrow> trim (s @ [c]) = trim s"
proof (cases "\<forall>x\<in>set s. is_ws x")
  case True
  assume "is_ws c"
  then show ?thesis using True
    by (auto simp: trim_def dropWhile_append dest: set_dropWhileD)
next
  case False
  assume "is_ws c"
  with False show ?thesis by (auto simp: trim_def dropWhile_append)
qed

lemma trim_trimmed:
  "s = [] \<or> (\<not> is_ws (hd s) \<and> \<not> is_ws (last s)) \<Longrightarrow> trim s = s"
proof (cases "s = []")
  case True
  then show ?thesis by (simp add: trim_def)
next
  case False
  assume "s = [] \<or> (\<not> is_ws (hd s) \<and> \<not> is_ws (last s))"
  with False have h: "\<not> is_ws (hd s)" "\<not> is_ws (last s)" by simp_all
  from False h(1) have 1: "dropWhile is_ws s = s" by (cases s) simp_all
  from False h(2) have 2: "dropWhile is_ws (rev s) = rev s"
    by (cases s rule: rev_cases) simp_all
  show ?thesis by (simp add: trim_def 1 2)
qed

lemma trim_ends: "trim s = [] \<or> (\<not> is_ws (hd (trim s)) \<and> \<not> is_ws (last (trim s)))"
proof (cases "trim s = []")
  case True
  then show ?thesis by simp
next
  case False
  let ?d = "dropWhile is_ws s"
  let ?r = "dropWhile is_ws (rev ?d)"
  from False have r: "?r \<noteq> []" by (simp add: trim_def)
  then have d: "?d \<noteq> []" by (cases "?d = []") simp_all
  from r have "\<not> is_ws (hd ?r)" by (rule hd_dropWhile)
  then have l: "\<not> is_ws (last (trim s))"
    using r by (simp add: trim_def last_rev)
  from d have hd: "\<not> is_ws (hd ?d)" by (rule hd_dropWhile)
  obtain k where k: "?r = drop k (rev ?d)"
    by (metis dropWhile_eq_drop)
  have "rev ?r = take (length ?d - k) ?d"
    by (simp add: k rev_drop rev_take)
  moreover from r have "length ?d - k \<noteq> 0"
    using calculation by auto
  ultimately have "hd (rev ?r) = hd ?d"
    by (simp add: hd_take)
  with hd l show ?thesis by (simp add: trim_def)
qed

lemma trim_idem: "trim (trim s) = trim s"
  by (rule trim_trimmed) (rule trim_ends)

lemma trimmed_ends: "trim s = s \<Longrightarrow> s = [] \<or> (\<not> is_ws (hd s) \<and> \<not> is_ws (last s))"
  using trim_ends [of s] by simp

lemma sublist_trim: "sublist (trim s) s"
proof -
  have "sublist (rev (dropWhile is_ws (rev (dropWhile is_ws s)))) (dropWhile is_ws s)"
    by (simp add: sublist_rev_left)
  moreover have "sublist (dropWhile is_ws s) s" by simp
  ultimately show ?thesis
    unfolding trim_def by (rule sublist_order.order_trans)
qed

lemma set_trim: "set (trim s) \<subseteq> set s"
proof -
  obtain ps ss where "s = ps @ trim s @ ss"
    using sublist_trim [of s] unfolding sublist_def by blast
  then have "set s = set ps \<union> set (trim s) \<union> set ss"
    by (metis set_append sup_assoc)
  then show ?thesis by blast
qed

lemma includes_sublist: "includes_str sep s \<longleftrightarrow> sublist sep s"
  by (induction s) (simp_all add: sublist_Cons_right)

lemma includes_trim: "includes_str sep (trim s) \<Longrightarrow> includes_str sep s"
  unfolding includes_sublist
  using sublist_trim [of s] by (rule sublist_order.order_trans [rotated])

lemma split_str_hd_prefix: "prefix (hd (split_str sep s)) s"
  by (induction sep s rule: split_str.induct) (auto split: list.splits)

lemma split_str_no_sep:
  "sep \<noteq> [] \<Longrightarrow> p \<in> set (split_str sep s) \<Longrightarrow> \<not> includes_str sep p"
proof (induction sep s arbitrary: p rule: split_str.induct)
  case (1 sep)
  then show ?case by simp
next
  case (2 sep c cs)
  show ?case
  proof (cases "prefix sep (c # cs)")
    case True
    with 2(1) [of p] 2(3,4) show ?thesis by auto
  next
    case False
    obtain q qs where q: "split_str sep cs = q # qs"
      using split_str_not_Nil [of sep cs] by (cases "split_str sep cs") auto
    with False 2(4) have "p = c # q \<or> p \<in> set qs" by simp
    then show ?thesis
    proof
      assume "p \<in> set qs"
      with 2(2) [of p] False 2(3) q show ?thesis by simp
    next
      assume p: "p = c # q"
      have "prefix q cs" using split_str_hd_prefix [of sep cs] q by simp
      then have "prefix (c # q) (c # cs)" by simp
      with False have "\<not> prefix sep (c # q)"
        using prefix_order.order_trans by blast
      moreover have "\<not> includes_str sep q"
        using 2(2) [of q] False 2(3) q by simp
      ultimately show ?thesis by (simp add: p)
    qed
  qed
qed

lemma split_str_set: "p \<in> set (split_str sep s) \<Longrightarrow> set p \<subseteq> set s"
proof (induction sep s arbitrary: p rule: split_str.induct)
  case (1 sep)
  then show ?case by simp
next
  case (2 sep c cs)
  show ?case
  proof (cases "sep \<noteq> [] \<and> prefix sep (c # cs)")
    case True
    with 2(1) [of p] 2(3) have "p = [] \<or> set p \<subseteq> set (drop (length sep) (c # cs))"
      by auto
    then show ?thesis using set_drop_subset [of "length sep" "c # cs"] by auto
  next
    case False
    obtain q qs where q: "split_str sep cs = q # qs"
      using split_str_not_Nil [of sep cs] by (cases "split_str sep cs") auto
    with False 2(3) have "p = c # q \<or> p \<in> set qs" by auto
    then show ?thesis using 2(2) [of p] 2(2) [of q] False q by auto
  qed
qed

lemma split_nl_no_nl: "l \<in> set (split_str [nl] s) \<Longrightarrow> nl \<notin> set l"
  using split_str_no_sep [of "[nl]" l s]
  by (auto simp: includes_sublist sublist_def dest!: split_list)


section \<open>What the parser guarantees of its cues\<close>

lemma stamp_ok_piece:
  assumes "nl \<notin> set line" "p \<in> set (split_str arrow line)"
  shows "stamp_ok (trim p)"
proof -
  have "\<not> includes_str arrow p"
    using split_str_no_sep [OF arrow_not_Nil assms(2)] .
  then have "\<not> includes_str arrow (trim p)"
    using includes_trim by blast
  moreover have "set (trim p) \<subseteq> set line"
    using set_trim [of p] split_str_set [OF assms(2)] by blast
  ultimately show ?thesis
    using assms(1) by (auto simp: stamp_ok_def trim_idem)
qed

lemma state_ok_save_previous: "state_ok st \<Longrightarrow> state_ok (save_previous st)"
  by (auto simp: state_ok_def save_previous_def cue_ok_def open_ok_def split: option.splits)

lemma state_ok_parse_step:
  assumes "state_ok st" "nl \<notin> set l"
  shows "state_ok (parse_step (trim l) st)"
proof -
  have n: "nl \<notin> set (trim l)" using assms(2) set_trim [of l] by blast
  show ?thesis
  proof (cases "includes_str arrow (trim l)")
    case True
    from includes_split_two [OF arrow_not_Nil True]
    obtain a b r where s: "split_str arrow (trim l) = a # b # r" by blast
    then have "stamp_ok (trim a)" "stamp_ok (trim b)"
      using stamp_ok_piece [OF n, of a] stamp_ok_piece [OF n, of b] by simp_all
    then show ?thesis
      using state_ok_save_previous [OF assms(1)] assms(1) True s
      by (simp add: parse_step_def state_ok_def open_ok_def)
  next
    case False
    then show ?thesis
      using assms(1) n
      by (auto simp: parse_step_def state_ok_def open_ok_def line_ok_def stamp_ok_def
          trim_idem split: option.splits)
  qed
qed

lemma state_ok_parse_lines:
  "state_ok st \<Longrightarrow> (\<And>l. l \<in> set ls \<Longrightarrow> nl \<notin> set l) \<Longrightarrow> state_ok (parse_lines ls st)"
  unfolding parse_lines_def
  by (induction ls arbitrary: st) (simp_all add: state_ok_parse_step)

lemma parse_cues_ok:
  "list_all cue_ok (ps_cues (save_previous (parse_lines (split_str [nl] s) parse_init)))"
proof -
  have "state_ok parse_init" by (simp add: state_ok_def parse_init_def)
  then have "state_ok (parse_lines (split_str [nl] s) parse_init)"
    by (rule state_ok_parse_lines) (rule split_nl_no_nl)
  then have "state_ok (save_previous (parse_lines (split_str [nl] s) parse_init))"
    by (rule state_ok_save_previous)
  then show ?thesis by (simp add: state_ok_def)
qed

section \<open>The lines of a text\<close>

lemma parse_step_empty: "parse_step [] st = st"
  by (simp add: parse_step_def)

lemma parse_lines_nonblank:
  "parse_lines ls st = fold parse_step (filter (\<lambda>l. l \<noteq> []) (map trim ls)) st"
  unfolding parse_lines_def
  by (induction ls arbitrary: st) (simp_all add: parse_step_empty)

lemma split_char_Cons:
  "split_str [x] (c # cs) =
     (if c = x then [] # split_str [x] cs
      else (c # hd (split_str [x] cs)) # tl (split_str [x] cs))"
  using split_str_not_Nil [of "[x]" cs]
  by (cases "split_str [x] cs") auto

lemma split_char_append:
  "split_str [x] (a @ b) =
     butlast (split_str [x] a) @
       [last (split_str [x] a) @ hd (split_str [x] b)] @ tl (split_str [x] b)"
proof (induction a)
  case Nil
  then show ?case using split_str_not_Nil [of "[x]" b] by simp
next
  case (Cons c a)
  obtain p ps where A: "split_str [x] a = p # ps"
    using split_str_not_Nil [of "[x]" a] by (cases "split_str [x] a") auto
  show ?case
  proof (cases "c = x")
    case True
    then show ?thesis
      using Cons A by (simp add: split_char_Cons del: split_str.simps)
  next
    case False
    then show ?thesis
      using Cons A by (cases ps) (simp_all add: split_char_Cons del: split_str.simps)
  qed
qed

lemma nonblank_lines_Nil: "nonblank_lines [] = []"
  by (simp add: nonblank_lines_def trim_def)

lemma nonblank_lines_break:
  "nonblank_lines (a @ nl # b) = nonblank_lines a @ nonblank_lines b"
proof -
  have "split_str [nl] (nl # b) = [] # split_str [nl] b" by simp
  then have "split_str [nl] (a @ nl # b) = split_str [nl] a @ split_str [nl] b"
    using split_str_not_Nil [of "[nl]" a]
    by (simp add: split_char_append [of nl a "nl # b"] del: split_str.simps)
  then show ?thesis by (simp add: nonblank_lines_def)
qed

lemma nonblank_lines_Cons_ws: "is_ws c \<Longrightarrow> nonblank_lines (c # s) = nonblank_lines s"
proof (cases "c = nl")
  case True
  then show ?thesis using nonblank_lines_break [of "[]" s] by (simp add: nonblank_lines_Nil)
next
  case False
  assume w: "is_ws c"
  obtain p ps where A: "split_str [nl] s = p # ps"
    using split_str_not_Nil [of "[nl]" s] by (cases "split_str [nl] s") auto
  with False w show ?thesis
    by (simp add: nonblank_lines_def split_char_Cons trim_Cons_ws del: split_str.simps)
qed

lemma nonblank_lines_snoc_ws: "is_ws c \<Longrightarrow> nonblank_lines (s @ [c]) = nonblank_lines s"
proof (cases "c = nl")
  case True
  then show ?thesis using nonblank_lines_break [of s "[]"] by (simp add: nonblank_lines_Nil)
next
  case False
  assume w: "is_ws c"
  have m: "map trim (butlast xs @ [last xs @ [c]]) = map trim xs" if "xs \<noteq> []" for xs
    using that w by (induction xs) (simp_all add: trim_snoc_ws)
  from False have "split_str [nl] [c] = [[c]]" by simp
  then have "split_str [nl] (s @ [c])
      = butlast (split_str [nl] s) @ [last (split_str [nl] s) @ [c]]"
    by (simp add: split_char_append [of nl s "[c]"] del: split_str.simps)
  then show ?thesis
    using m [OF split_str_not_Nil [of "[nl]" s]] by (simp add: nonblank_lines_def)
qed

lemma nonblank_lines_dropWhile: "nonblank_lines (dropWhile is_ws s) = nonblank_lines s"
  by (induction s) (simp_all add: nonblank_lines_Cons_ws)

lemma nonblank_lines_drop_end:
  "nonblank_lines (rev (dropWhile is_ws (rev s))) = nonblank_lines s"
  by (induction s rule: rev_induct) (simp_all add: nonblank_lines_snoc_ws)

lemma nonblank_lines_trim: "nonblank_lines (trim s) = nonblank_lines s"
  by (simp add: trim_def nonblank_lines_drop_end nonblank_lines_dropWhile)

lemma nonblank_lines_single:
  "nl \<notin> set l \<Longrightarrow> nonblank_lines l = (if trim l = [] then [] else [trim l])"
proof -
  assume "nl \<notin> set l"
  then have "split_str [nl] l = [l]"
    by (induction l) auto
  then show ?thesis by (simp add: nonblank_lines_def)
qed

lemma nonblank_lines_join:
  "list_all line_ok ls \<Longrightarrow> nonblank_lines (join [nl] ls) = ls"
proof (induction "[nl]" ls rule: join.induct)
  case 1
  then show ?case by (simp add: nonblank_lines_Nil)
next
  case (2 x)
  then show ?case by (simp add: nonblank_lines_single line_ok_def stamp_ok_def)
next
  case (3 x y ys)
  then have "nonblank_lines x = [x]"
    by (simp add: nonblank_lines_single line_ok_def stamp_ok_def)
  with 3 show ?case by (simp add: nonblank_lines_break)
qed


section \<open>Reading back a timestamp line\<close>

lemma js_arrow: "js '' --> '' = sp # arrow @ [sp]"
  by (simp add: js_def arrow_def sp_def)

lemma is_ws_sp: "is_ws sp"
  by (simp add: is_ws_def sp_def)

lemma dropWhile_keep:
  "m \<noteq> [] \<Longrightarrow> \<not> P (hd m) \<Longrightarrow> dropWhile P (a @ m @ b) = dropWhile P a @ m @ b"
  by (cases m) (auto simp: dropWhile_append)

lemma trim_middle:
  assumes "m \<noteq> []" "\<not> is_ws (hd m)" "\<not> is_ws (last m)"
  shows "trim (a @ m @ b) = dropWhile is_ws a @ m @ rev (dropWhile is_ws (rev b))"
proof -
  have 1: "dropWhile is_ws (a @ m @ b) = dropWhile is_ws a @ m @ b"
    using assms(1,2) by (rule dropWhile_keep)
  have "dropWhile is_ws (rev b @ rev m @ rev (dropWhile is_ws a))
      = dropWhile is_ws (rev b) @ rev m @ rev (dropWhile is_ws a)"
    using assms by (intro dropWhile_keep) (simp_all add: hd_rev)
  then show ?thesis by (simp add: trim_def 1)
qed

lemma split_no_sep: "\<not> includes_str sep s \<Longrightarrow> split_str sep s = [s]"
  by (induction s) auto

lemma split_arrow_head: "split_str arrow (arrow @ b) = [] # split_str arrow b"
  by (simp add: arrow_def)

lemma not_prefix_arrow_sp:
  assumes "\<not> prefix arrow (c # s)"
  shows "\<not> prefix arrow (c # s @ sp # b)"
proof (cases s)
  case Nil
  then show ?thesis by (simp add: arrow_def sp_def)
next
  case (Cons x s')
  with assms show ?thesis by (cases s') (auto simp: arrow_def sp_def)
qed

lemma split_before_arrow:
  "\<not> includes_str arrow s \<Longrightarrow>
   split_str arrow (s @ sp # arrow @ b) = (s @ [sp]) # split_str arrow b"
proof (induction s)
  case Nil
  have "\<not> prefix arrow (sp # arrow @ b)" by (simp add: arrow_def sp_def)
  then show ?case by (simp add: split_arrow_head del: split_str.simps(2))
      (simp add: split_arrow_head)
next
  case (Cons c s)
  then have "\<not> prefix arrow (c # s @ sp # arrow @ b)"
    using not_prefix_arrow_sp [of c s "arrow @ b"] by simp
  with Cons show ?case by simp
qed

lemma stamp_line_read:
  assumes "stamp_ok (startTime c)" "stamp_ok (endTime c)"
  defines "L \<equiv> trim (stamp_line c)"
  shows "L \<noteq> []" "L \<noteq> js ''WEBVTT''" "includes_str arrow L"
    "trim (hd (split_str arrow L)) = startTime c"
    "trim (hd (tl (split_str arrow L))) = endTime c"
proof -
  let ?s = "startTime c" and ?e = "endTime c"
  define A where "A = dropWhile is_ws (?s @ [sp])"
  define B where "B = rev (dropWhile is_ws (rev (sp # ?e)))"
  have m: "arrow \<noteq> []" "\<not> is_ws (hd arrow)" "\<not> is_ws (last arrow)"
    by (simp_all add: arrow_def is_ws_def)
  have L: "L = A @ arrow @ B"
    using trim_middle [OF m, of "?s @ [sp]" "sp # ?e"]
    by (simp add: L_def stamp_line_def js_arrow A_def B_def)
  from assms(1) have s: "?s = [] \<or> (\<not> is_ws (hd ?s) \<and> \<not> is_ws (last ?s))"
    by (simp add: stamp_ok_def trimmed_ends)
  from assms(2) have e: "?e = [] \<or> (\<not> is_ws (hd ?e) \<and> \<not> is_ws (last ?e))"
    by (simp add: stamp_ok_def trimmed_ends)
  have A: "A = (if ?s = [] then [] else ?s @ [sp])"
    unfolding A_def using s is_ws_sp by (cases ?s) auto
  have B: "B = (if ?e = [] then [] else sp # ?e)"
    unfolding B_def using e is_ws_sp by (cases ?e rule: rev_cases) auto
  from assms have ns: "\<not> includes_str arrow ?s" and ne: "\<not> includes_str arrow ?e"
    by (simp_all add: stamp_ok_def)
  have nB: "\<not> includes_str arrow B"
    unfolding B using ne by (simp add: arrow_def sp_def)
  have sp: "split_str arrow L = [A, B]"
  proof (cases "?s = []")
    case True
    then have "A = []" by (simp add: A)
    then show ?thesis
      using split_no_sep [OF nB] by (simp add: L split_arrow_head)
  next
    case False
    then have "A = ?s @ [sp]" by (simp add: A)
    then show ?thesis
      using split_before_arrow [OF ns, of B] split_no_sep [OF nB] by (simp add: L)
  qed
  show "L \<noteq> []" using m(1) by (simp add: L)
  show i: "includes_str arrow L"
    by (simp add: L includes_sublist)
  have "\<not> includes_str arrow (js ''WEBVTT'')"
    by (simp add: js_def arrow_def)
  with i show "L \<noteq> js ''WEBVTT''" by auto
  have "trim A = trim ?s"
    by (simp add: A trim_snoc_ws is_ws_sp)
  then show "trim (hd (split_str arrow L)) = ?s"
    using assms(1) by (simp add: sp stamp_ok_def)
  have "trim B = trim ?e"
    by (simp add: B trim_Cons_ws is_ws_sp)
  then show "trim (hd (tl (split_str arrow L))) = ?e"
    using assms(2) by (simp add: sp stamp_ok_def)
qed

lemma parse_step_stamp:
  assumes "stamp_ok (startTime c)" "stamp_ok (endTime c)"
  shows "parse_step (trim (stamp_line c)) st =
     (save_previous st)
       \<lparr>ps_currentCue :=
          Some \<lparr>oc_startTime = startTime c, oc_endTime = endTime c, oc_textLines = []\<rparr>\<rparr>"
  using stamp_line_read [OF assms] by (simp add: parse_step_def)

lemma parse_step_text:
  "line_ok l \<Longrightarrow> ps_currentCue st = Some oc \<Longrightarrow>
   parse_step l st = st\<lparr>ps_currentCue := Some (oc\<lparr>oc_textLines := oc_textLines oc @ [l]\<rparr>)\<rparr>"
  by (simp add: parse_step_def line_ok_def stamp_ok_def)

lemma parse_steps_text:
  "list_all line_ok ls \<Longrightarrow> ps_currentCue st = Some oc \<Longrightarrow>
   fold parse_step ls st = st\<lparr>ps_currentCue := Some (oc\<lparr>oc_textLines := oc_textLines oc @ ls\<rparr>)\<rparr>"
proof (induction ls arbitrary: st oc)
  case Nil
  then show ?case by simp
next
  case (Cons l ls)
  let ?st = "st\<lparr>ps_currentCue := Some (oc\<lparr>oc_textLines := oc_textLines oc @ [l]\<rparr>)\<rparr>"
  from Cons.prems have 1: "parse_step l st = ?st"
    by (simp add: parse_step_text)
  from Cons.prems have "list_all line_ok ls" by simp
  from Cons.IH [OF this, of ?st "oc\<lparr>oc_textLines := oc_textLines oc @ [l]\<rparr>"]
  show ?case by (simp add: 1)
qed

lemma parse_steps_cue:
  assumes "cue_ok c"
  shows "fold parse_step (trim (stamp_line c) # textLines c) st =
     (save_previous st)
       \<lparr>ps_currentCue :=
          Some \<lparr>oc_startTime = startTime c, oc_endTime = endTime c,
                oc_textLines = textLines c\<rparr>\<rparr>"
proof -
  from assms have ok: "stamp_ok (startTime c)" "stamp_ok (endTime c)"
    "list_all line_ok (textLines c)"
    by (simp_all add: cue_ok_def)
  show ?thesis
    using parse_steps_text [OF ok(3), of
        "(save_previous st)\<lparr>ps_currentCue :=
           Some \<lparr>oc_startTime = startTime c, oc_endTime = endTime c, oc_textLines = []\<rparr>\<rparr>"
        "\<lparr>oc_startTime = startTime c, oc_endTime = endTime c, oc_textLines = []\<rparr>"]
    by (simp add: parse_step_stamp [OF ok(1,2)])
qed


section \<open>Parsing the reconstructed text\<close>

lemma save_previous_open:
  "textLines c \<noteq> [] \<Longrightarrow>
   save_previous (st\<lparr>ps_currentCue :=
       Some \<lparr>oc_startTime = startTime c, oc_endTime = endTime c,
             oc_textLines = textLines c\<rparr>\<rparr>)
   = st\<lparr>ps_cues := ps_cues st @ [c\<lparr>originalIndex := ps_cueIndex st\<rparr>],
        ps_currentCue :=
          Some \<lparr>oc_startTime = startTime c, oc_endTime = endTime c,
                oc_textLines = textLines c\<rparr>,
        ps_cueIndex := ps_cueIndex st + 1\<rparr>"
  by (simp add: save_previous_def)

lemma parse_steps_cues:
  assumes "list_all cue_ok cs"
    and "map originalIndex cs
         = map (\<lambda>i. ps_cueIndex (save_previous st) + int i) [0..<length cs]"
  shows "ps_cues (save_previous
           (fold parse_step (concat (map (\<lambda>c. trim (stamp_line c) # textLines c) cs)) st))
         = ps_cues (save_previous st) @ cs"
  using assms
proof (induction cs arbitrary: st)
  case Nil
  then show ?case by simp
next
  case (Cons c cs)
  let ?st1 = "(save_previous st)
       \<lparr>ps_currentCue :=
          Some \<lparr>oc_startTime = startTime c, oc_endTime = endTime c,
                oc_textLines = textLines c\<rparr>\<rparr>"
  from Cons.prems(1) have ok: "cue_ok c" "list_all cue_ok cs" by simp_all
  then have ne: "textLines c \<noteq> []" by (simp add: cue_ok_def)
  have 1: "fold parse_step (trim (stamp_line c) # textLines c) st = ?st1"
    by (rule parse_steps_cue [OF ok(1)])
  from Cons.prems(2) have i0: "originalIndex c = ps_cueIndex (save_previous st)"
    and it: "map originalIndex cs
         = map (\<lambda>i. ps_cueIndex (save_previous st) + int (Suc i)) [0..<length cs]"
    by (simp_all add: map_upt_Suc del: upt_Suc)
  have s1: "save_previous ?st1
      = (save_previous st)\<lparr>ps_cues := ps_cues (save_previous st) @ [c],
        ps_currentCue :=
          Some \<lparr>oc_startTime = startTime c, oc_endTime = endTime c,
                oc_textLines = textLines c\<rparr>,
        ps_cueIndex := ps_cueIndex (save_previous st) + 1\<rparr>"
    using save_previous_open [OF ne, of "save_previous st"] i0 [symmetric] by simp
  have "map originalIndex cs
         = map (\<lambda>i. ps_cueIndex (save_previous ?st1) + int i) [0..<length cs]"
    by (simp add: s1 it add.assoc)
  from Cons.IH [OF ok(2) this]
  have "ps_cues (save_previous
           (fold parse_step (concat (map (\<lambda>c. trim (stamp_line c) # textLines c) cs)) ?st1))
         = ps_cues (save_previous ?st1) @ cs" .
  then show ?case
    using 1 by (simp add: s1)
qed

lemma nonblank_lines_stamp:
  assumes "cue_ok c"
  shows "nonblank_lines (stamp_line c) = [trim (stamp_line c)]"
proof -
  from assms have ok: "stamp_ok (startTime c)" "stamp_ok (endTime c)"
    by (simp_all add: cue_ok_def)
  then have "nl \<notin> set (stamp_line c)"
    by (simp add: stamp_line_def stamp_ok_def js_def nl_def)
  then show ?thesis
    using stamp_line_read(1) [OF ok] by (simp add: nonblank_lines_single)
qed

lemma nonblank_lines_cue_text:
  assumes "cue_ok c"
  shows "nonblank_lines (cue_text c @ rest)
         = trim (stamp_line c) # textLines c @ nonblank_lines rest"
proof -
  from assms have ok: "list_all line_ok (textLines c)" by (simp add: cue_ok_def)
  have "cue_text c @ rest
      = stamp_line c @ nl # (join [nl] (textLines c) @ nl # ([] @ nl # rest))"
    by (simp add: cue_text_def stamp_line_def)
  then show ?thesis
    by (simp only: nonblank_lines_break nonblank_lines_stamp [OF assms]
        nonblank_lines_join [OF ok] nonblank_lines_Nil) simp
qed

lemma nonblank_lines_cues:
  "list_all cue_ok cs \<Longrightarrow>
   nonblank_lines (concat (map cue_text cs))
   = concat (map (\<lambda>c. trim (stamp_line c) # textLines c) cs)"
  by (induction cs) (simp_all add: nonblank_lines_Nil nonblank_lines_cue_text)

lemma nonblank_lines_header:
  "nonblank_lines (js ''WEBVTT'' @ [nl, nl] @ rest) = js ''WEBVTT'' # nonblank_lines rest"
proof -
  have "nl \<notin> set (js ''WEBVTT'')" by (simp add: js_def nl_def)
  then have h: "nonblank_lines (js ''WEBVTT'') = [js ''WEBVTT'']"
    by (simp add: nonblank_lines_single trim_trimmed js_def is_ws_def)
  have "js ''WEBVTT'' @ [nl, nl] @ rest = js ''WEBVTT'' @ nl # ([] @ nl # rest)"
    by simp
  then show ?thesis
    by (simp only: nonblank_lines_break h nonblank_lines_Nil) simp
qed

lemma parse_reconstruct:
  assumes "list_all cue_ok cs" "map originalIndex cs = map int [0..<length cs]"
  shows "parse (reconstructVTT cs) = Inr cs"
proof -
  let ?raw = "js ''WEBVTT'' @ [nl, nl] @ concat (map cue_text cs)"
  have "sorted (map int [0..<length cs])"
    by (simp add: sorted_map)
  with assms(2) have "sort_key originalIndex cs = cs"
    by (simp add: sort_key_id_if_sorted)
  then have r: "reconstructVTT cs = trim ?raw"
    by (simp add: reconstructVTT_def fold_append_concat)
  have n: "nonblank_lines (trim ?raw)
      = js ''WEBVTT'' # concat (map (\<lambda>c. trim (stamp_line c) # textLines c) cs)"
    by (simp only: nonblank_lines_trim nonblank_lines_header nonblank_lines_cues [OF assms(1)])
  have p: "parse_lines (split_str [nl] (trim ?raw)) parse_init
      = fold parse_step (concat (map (\<lambda>c. trim (stamp_line c) # textLines c) cs)) parse_init"
    using n by (simp add: parse_lines_nonblank nonblank_lines_def parse_step_def)
  have i: "save_previous parse_init = parse_init"
    by (simp add: save_previous_def parse_init_def)
  have "map originalIndex cs
         = map (\<lambda>i. ps_cueIndex (save_previous parse_init) + int i) [0..<length cs]"
    unfolding i using assms(2) by (simp add: parse_init_def)
  from parse_steps_cues [OF assms(1) this]
  have "ps_cues (save_previous
      (fold parse_step (concat (map (\<lambda>c. trim (stamp_line c) # textLines c) cs)) parse_init))
      = cs"
    unfolding i by (simp add: parse_init_def)
  then show ?thesis
    unfolding parse_eq r p by simp
qed


section \<open>Where the groups are cut\<close>

lemma cut_at_not_Nil: "xs \<noteq> [] \<Longrightarrow> cut_at b xs \<noteq> []"
  by (induction b xs rule: cut_at.induct) (auto split: list.splits)

lemma group_from_cut:
  assumes "gs_currentGroup st \<noteq> []" "last (gs_currentGroup st) = p"
  shows "map cues (close_group (group_from p rest st))
     = map cues (gs_groups st) @
       (butlast (gs_currentGroup st) @ hd (cut_at sentence_boundary (p # rest)))
       # tl (cut_at sentence_boundary (p # rest))"
  using assms
proof (induction rest arbitrary: p st)
  case Nil
  then have "butlast (gs_currentGroup st) @ [p] = gs_currentGroup st"
    using append_butlast_last_id by fastforce
  then show ?case by (simp add: close_group_def)
next
  case (Cons n rest)
  obtain g gs where c: "cut_at sentence_boundary (n # rest) = g # gs"
    using cut_at_not_Nil [of "n # rest" sentence_boundary]
    by (cases "cut_at sentence_boundary (n # rest)") auto
  from Cons.prems have cur: "butlast (gs_currentGroup st) @ [p] = gs_currentGroup st"
    using append_butlast_last_id by fastforce
  show ?case
  proof (cases "sentence_boundary p n")
    case True
    let ?st = "\<lparr>gs_groups = close_group st, gs_currentGroup = [n]\<rparr>"
    have "map cues (close_group (group_from n rest ?st))
        = map cues (gs_groups ?st) @
          (butlast (gs_currentGroup ?st) @ hd (cut_at sentence_boundary (n # rest)))
          # tl (cut_at sentence_boundary (n # rest))"
      by (rule Cons.IH) simp_all
    with True c cur show ?thesis by (simp add: close_group_def)
  next
    case False
    let ?st = "st\<lparr>gs_currentGroup := gs_currentGroup st @ [n]\<rparr>"
    have "map cues (close_group (group_from n rest ?st))
        = map cues (gs_groups ?st) @
          (butlast (gs_currentGroup ?st) @ hd (cut_at sentence_boundary (n # rest)))
          # tl (cut_at sentence_boundary (n # rest))"
      by (rule Cons.IH) simp_all
    with False c cur show ?thesis
      by (simp add: butlast_append)
  qed
qed

lemma group_cut:
  "\<exists>gs. groupCuesIntoSentences cs = Inr gs \<and> map cues gs = cut_at sentence_boundary cs"
proof (cases cs)
  case Nil
  then show ?thesis by (simp add: groupCuesIntoSentences_def)
next
  case (Cons c rest)
  have "cut_at sentence_boundary (c # rest) \<noteq> []"
    by (rule cut_at_not_Nil) simp
  then show ?thesis
    using group_from_cut [of "\<lparr>gs_groups = [], gs_currentGroup = [c]\<rparr>" c rest] Cons
    by (simp add: group_eq)
qed

lemma cut_at_cong:
  "(\<And>x y. x \<in> set xs \<Longrightarrow> b x y = b' x y) \<Longrightarrow> cut_at b xs = cut_at b' xs"
  by (induction b xs rule: cut_at.induct) simp_all

lemma SENTENCE_ENDINGS_test_last:
  "SENTENCE_ENDINGS_test s \<longleftrightarrow> s \<noteq> [] \<and> SENTENCE_ENDINGS_class (last s)"
  by (cases s rule: rev_cases) (simp_all add: SENTENCE_ENDINGS_test_def)

lemma plain_boundary_eq:
  "\<not> ellipsis_like_ending (trim (lastLine_of p)) \<Longrightarrow>
   sentence_boundary p n = plain_boundary p n"
  by (auto simp: sentence_boundary_def plain_boundary_def SENTENCE_ENDINGS_test_last
      SENTENCE_ENDINGS_class_def plain_sentence_ending_def ellipsis_like_ending_def
      SENTENCE_STARTERS_test_def SENTENCE_STARTERS_class_def plain_sentence_starting_def
      split: list.splits)


section \<open>Refilling when no slot is left empty\<close>

lemma refill_exact:
  assumes "rf_lineIndex st + sum_list (map (\<lambda>c. length (textLines c)) cs) \<le> length ls"
    and "list_all (\<lambda>l. length (trim l) > 0) ls"
  shows "\<exists>st'. for_of cs (refill_cue ls) st = Inr st'
     \<and> map textLines (rf_updatedCues st')
       = map textLines (rf_updatedCues st) @
         runs_of (map (\<lambda>c. length (textLines c)) cs) (drop (rf_lineIndex st) ls)"
  using assms(1)
proof (induction cs arbitrary: st)
  case Nil
  then show ?case by simp
next
  case (Cons c cs)
  let ?k = "length (textLines c)"
  let ?li = "rf_lineIndex st"
  let ?new = "take ?k (drop ?li ls)"
  let ?st1 = "\<lparr>rf_updatedCues = rf_updatedCues st @ [c\<lparr>textLines := ?new\<rparr>],
          rf_lineIndex = ?li + ?k, rf_fallback = rf_fallback st\<rparr>"
  from Cons.prems have le: "?li + ?k \<le> length ls" and li: "?li \<le> length ls" by simp_all
  have "set ?new \<subseteq> set ls"
    using set_take_subset set_drop_subset by fastforce
  with assms(2) have f: "filter (\<lambda>line. length (trim line) > 0) ?new = ?new"
    by (auto simp: list_all_iff filter_id_conv)
  from le have r: "?k - (length ls - ?li) = 0" by simp
  have 1: "refill_cue ls c st = Inr ?st1"
    using le f by (simp add: refill_cue_eq [OF li] r min_def)
  from Cons.prems have
    "rf_lineIndex ?st1 + sum_list (map (\<lambda>c. length (textLines c)) cs) \<le> length ls"
    by simp
  from Cons.IH [OF this] obtain st' where
    s: "for_of cs (refill_cue ls) ?st1 = Inr st'"
       "map textLines (rf_updatedCues st')
       = map textLines (rf_updatedCues ?st1) @
         runs_of (map (\<lambda>c. length (textLines c)) cs) (drop (rf_lineIndex ?st1) ls)"
    by blast
  have "for_of (c # cs) (refill_cue ls) st = Inr st'"
    using 1 s(1) by simp
  moreover have "map textLines (rf_updatedCues st')
       = map textLines (rf_updatedCues st) @
         runs_of (map (\<lambda>c. length (textLines c)) (c # cs)) (drop ?li ls)"
    using s(2) by (simp add: add.commute)
  ultimately show ?case by blast
qed

lemma trim_not_Nil: "x \<in> set s \<Longrightarrow> \<not> is_ws x \<Longrightarrow> trim s \<noteq> []"
proof -
  assume x: "x \<in> set s" "\<not> is_ws x"
  then have d: "dropWhile is_ws s \<noteq> []" by auto
  then have "\<not> is_ws (hd (dropWhile is_ws s))" by (rule hd_dropWhile)
  moreover from d have "hd (dropWhile is_ws s) \<in> set (rev (dropWhile is_ws s))" by simp
  ultimately have "dropWhile is_ws (rev (dropWhile is_ws s)) \<noteq> []"
    by (metis dropWhile_eq_Nil_conv)
  then show ?thesis by (simp add: trim_def)
qed

lemma nonblank_has_char: "trim s \<noteq> [] \<Longrightarrow> \<exists>x\<in>set s. \<not> is_ws x"
  using trim_ends [of s] set_trim [of s] by (metis hd_in_set subsetD)

lemma set_join_hd: "set y \<subseteq> set (join sep (y # ys))"
  by (cases ys) auto

lemma translatedLines_nonblank:
  "list_all (\<lambda>l. length (trim l) > 0) (translatedLines_of t)"
  by (auto simp: translatedLines_of_def list_all_iff trim_idem)

lemma overfill_nonblank:
  assumes "list_all (\<lambda>l. length (trim l) > 0) ls"
  shows "list_all (\<lambda>l. length (trim l) > 0) (overfill n ls)"
proof (cases "length ls > n \<and> n \<noteq> 0")
  case False
  then show ?thesis
    using assms by (auto simp: overfill_def list_all_iff dest: in_set_butlastD)
next
  case True
  then obtain y ys where d: "drop (n - 1) ls = y # ys"
    by (cases "drop (n - 1) ls") auto
  then have "y \<in> set ls" by (metis in_set_dropD list.set_intros(1))
  with assms have "trim y \<noteq> []" by (auto simp: list_all_iff)
  then obtain x where "x \<in> set y" "\<not> is_ws x"
    using nonblank_has_char by blast
  then have "trim (join [sp] (y # ys)) \<noteq> []"
    using set_join_hd [of y "[sp]" ys] trim_not_Nil by blast
  then show ?thesis
    using assms True d by (auto simp: overfill_def list_all_iff dest: in_set_takeD)
qed

lemma redistribute_run_exact:
  assumes "underfill (totalLines_of g) (translatedLines_of t) 0 = Inr (ls, b, n)"
    and "totalLines_of g \<le> length (overfill (totalLines_of g) ls)"
    and "list_all (\<lambda>l. length (trim l) > 0) (overfill (totalLines_of g) ls)"
  shows "\<exists>r. redistribute_run g t = Inr r
     \<and> run_lines r = overfill (totalLines_of g) ls
     \<and> map textLines (run_cues r)
       = runs_of (map (\<lambda>c. length (textLines c)) (cues g)) (run_lines r)"
proof -
  let ?st = "\<lparr>rf_updatedCues = [], rf_lineIndex = 0, rf_fallback = False\<rparr>"
  have "rf_lineIndex ?st + sum_list (map (\<lambda>c. length (textLines c)) (cues g))
      \<le> length (overfill (totalLines_of g) ls)"
    using assms(2) by (simp add: totalLines_of_sum)
  from refill_exact [OF this assms(3)] obtain st' where
    "for_of (cues g) (refill_cue (overfill (totalLines_of g) ls)) ?st = Inr st'"
    "map textLines (rf_updatedCues st')
       = runs_of (map (\<lambda>c. length (textLines c)) (cues g)) (overfill (totalLines_of g) ls)"
    by auto
  then show ?thesis
    using assms(1) by (simp add: redistribute_run_def Let_def)
qed


section \<open>The result of the under-fill loop\<close>

lemma underfill_split_until:
  "slots - length ls \<le> k \<Longrightarrow>
   \<exists>b n'. underfill slots ls n = Inr (split_until k slots ls, b, n')"
proof (induction k arbitrary: ls n)
  case 0
  then have "\<not> (0 < length ls \<and> length ls < slots)" by simp
  then have "underfill slots ls n = Inr (ls, False, n)" by (rule underfill_exit)
  then show ?case by auto
next
  case (Suc k)
  show ?case
  proof (cases "0 < length ls \<and> length ls < slots")
    case False
    then have "underfill slots ls n = Inr (ls, False, n)" by (rule underfill_exit)
    with False show ?thesis by auto
  next
    case True
    show ?thesis
    proof (cases "claimed_split_longest ls")
      case None
      with True have "underfill slots ls n = Inr (ls, True, n)" by (simp add: underfill_step)
      with True None show ?thesis by auto
    next
      case (Some ls1)
      with True have "length ls1 = Suc (length ls)"
        using claimed_split_longest_length [of ls ls1] by auto
      with Suc.prems have "slots - length ls1 \<le> k" by simp
      from Suc.IH [OF this, of "Suc n"] True Some show ?thesis
        by (simp add: underfill_step)
    qed
  qed
qed

lemma underfill_claimed:
  "underfill slots ls n =
     Inr (claimed_underfill slots ls,
          0 < length (claimed_underfill slots ls) \<and> length (claimed_underfill slots ls) < slots,
          n + (length (claimed_underfill slots ls) - length ls))"
proof -
  obtain b n' where 1: "underfill slots ls n = Inr (claimed_underfill slots ls, b, n')"
    using underfill_split_until [of slots ls slots n] by (auto simp: claimed_underfill_def)
  obtain ls2 b2 n2 where 2: "underfill slots ls n = Inr (ls2, b2, n2)"
    "n \<le> n2" "length ls2 = length ls + (n2 - n)"
    "b2 \<longleftrightarrow> 0 < length ls2 \<and> length ls2 < slots"
    using underfill_result [of slots ls n] by blast
  from 1 2(1) have e: "ls2 = claimed_underfill slots ls" "b2 = b" "n2 = n'" by simp_all
  from 2(2,3) have "n2 = n + (length ls2 - length ls)" by simp
  with 1 2(4) e show ?thesis by simp
qed

lemma claimed_underfill_length:
  "length ls \<le> slots \<Longrightarrow> length (claimed_underfill slots ls) \<le> slots"
proof -
  assume a: "length ls \<le> slots"
  obtain ls2 b2 n2 where 2: "underfill slots ls 0 = Inr (ls2, b2, n2)"
    "n2 - 0 \<le> slots - length ls" "length ls2 = length ls + (n2 - 0)"
    using underfill_result [of slots ls 0] by blast
  with underfill_claimed [of slots ls 0] have "ls2 = claimed_underfill slots ls" by simp
  with 2(2,3) a show ?thesis by simp
qed

lemma redistribute_run_underfill:
  assumes "length (translatedLines_of t) \<le> totalLines_of g"
  shows "\<exists>r. redistribute_run g t = Inr r
     \<and> run_lines r = claimed_underfill (totalLines_of g) (translatedLines_of t)
     \<and> length (run_lines r) \<le> totalLines_of g
     \<and> run_splits r = length (run_lines r) - length (translatedLines_of t)
     \<and> (run_broke r \<longleftrightarrow> 0 < length (run_lines r) \<and> length (run_lines r) < totalLines_of g)"
proof -
  let ?R = "claimed_underfill (totalLines_of g) (translatedLines_of t)"
  have len: "length ?R \<le> totalLines_of g"
    using assms by (rule claimed_underfill_length)
  then have o: "overfill (totalLines_of g) ?R = ?R" by (simp add: overfill_def)
  from redistribute_run_result [OF underfill_claimed [of "totalLines_of g" "translatedLines_of t" 0]]
  show ?thesis using len by (auto simp: o)
qed

lemma four_words_claimed:
  "claimed_underfill 2 [js ''one two three four''] = [js ''one two'', js ''three four'']"
  by code_simp

lemma six_words_lines:
  "translatedLines_of (js ''a b c d e f'') = [js ''a b c d e f'']"
  by (simp add: translatedLines_of_def js_def trim_def is_ws_def nl_def cr_def)

lemma six_words_claimed:
  "claimed_underfill 2 [js ''a b c d e f''] = [js ''a b c'', js ''d e f'']"
  by code_simp


section \<open>Tests that agree on the pairs of a sequence\<close>

lemma cut_at_cong_butlast:
  "(\<And>x y. x \<in> set (butlast xs) \<Longrightarrow> b x y = b' x y) \<Longrightarrow> cut_at b xs = cut_at b' xs"
  by (induction b xs rule: cut_at.induct) simp_all


section \<open>Claims\<close>

text \<open>
  C1. For every input string, \<open>parse\<close> returns a cue sequence, and parsing the text that
  \<open>reconstructVTT\<close> writes for it returns the very same sequence: the same length and,
  at every position, the same \<open>startTime\<close>, \<open>endTime\<close>, \<open>textLines\<close> and
  \<open>originalIndex\<close>.
\<close>

theorem parse_reconstruct_roundtrip:
  "\<exists>cs. parse s = Inr cs
     \<and> parse (reconstructVTT cs) = Inr cs
     \<and> (\<exists>cs'. parse (reconstructVTT cs) = Inr cs'
          \<and> length cs' = length cs
          \<and> map startTime cs' = map startTime cs
          \<and> map endTime cs' = map endTime cs
          \<and> map textLines cs' = map textLines cs
          \<and> map originalIndex cs' = map originalIndex cs)"
proof -
  let ?cs = "ps_cues (save_previous (parse_lines (split_str [nl] s) parse_init))"
  have "indexed (save_previous (parse_lines (split_str [nl] s) parse_init))"
    by (intro indexed_save_previous indexed_parse_lines indexed_init)
  then have "map originalIndex ?cs = map int [0..<length ?cs]"
    by (simp add: indexed_def)
  with parse_cues_ok [of s] have "parse (reconstructVTT ?cs) = Inr ?cs"
    by (rule parse_reconstruct)
  then show ?thesis
    using parse_eq [of s] by simp
qed


text \<open>
  C2. The under-fill loop of \<open>redistributeTranslation\<close> does what the specification
  says. While at least one line exists and the lines are fewer than the slots, one turn
  replaces the longest line (the first one on equal length), if it has at least two
  words, in place by its first \<open>ceil(wordCount / 2)\<close> words and its remaining words, each
  joined with single spaces, and goes on; if that line has exactly one word, the loop
  ends there by \<open>break\<close> and leaves the shortfall. With no line or with as many lines as
  slots the loop changes nothing. So the loop returns the lines of the specification's
  rule, and for a translated text with at least one line and fewer lines than slots
  these are the lines that go into the slots: never more than the slots, and fewer
  exactly when the loop ended by \<open>break\<close>. For any group with two slots the text
  \<open>one two three four\<close> gives the lines \<open>one two\<close> and \<open>three four\<close>, and the text
  \<open>a b c d e f\<close> gives \<open>a b c\<close> and \<open>d e f\<close>.
\<close>

theorem underfill_splits_longest:
  "(0 < length ls \<and> length ls < slots \<longrightarrow>
      underfill slots ls n =
        (case claimed_split_longest ls of
           Some ls' \<Rightarrow> underfill slots ls' (Suc n)
         | None \<Rightarrow> Inr (ls, True, n)))
   \<and> (\<not> (0 < length ls \<and> length ls < slots) \<longrightarrow>
        underfill slots ls n = Inr (ls, False, n))
   \<and> (claimed_split_longest ls = None \<longleftrightarrow>
        length (split_str [sp] (ls ! first_max_index ls)) = 1)
   \<and> underfill slots ls n =
       Inr (claimed_underfill slots ls,
            0 < length (claimed_underfill slots ls)
              \<and> length (claimed_underfill slots ls) < slots,
            n + (length (claimed_underfill slots ls) - length ls))
   \<and> (0 < length (translatedLines_of t)
        \<and> length (translatedLines_of t) < totalLines_of g \<longrightarrow>
        (\<exists>r. redistribute_run g t = Inr r
           \<and> run_lines r = claimed_underfill (totalLines_of g) (translatedLines_of t)
           \<and> length (run_lines r) \<le> totalLines_of g
           \<and> run_splits r = length (run_lines r) - length (translatedLines_of t)
           \<and> (run_broke r \<longleftrightarrow> length (run_lines r) < totalLines_of g)))
   \<and> (totalLines_of g = 2 \<longrightarrow>
        (\<exists>r. redistribute_run g (js ''one two three four'') = Inr r
           \<and> run_lines r = [js ''one two'', js ''three four''])
        \<and> (\<exists>r. redistribute_run g (js ''a b c d e f'') = Inr r
           \<and> run_lines r = [js ''a b c'', js ''d e f'']))
   \<and> redistributeTranslation
       \<lparr>cues = [\<lparr>startTime = js ''1'', endTime = js ''2'',
                 textLines = [js ''uno dos''], originalIndex = 0\<rparr>,
                \<lparr>startTime = js ''2'', endTime = js ''3'',
                 textLines = [js ''tres cuatro''], originalIndex = 1\<rparr>],
        combinedText = js ''uno dos tres cuatro''\<rparr>
       (js ''one two three four'')
     = Inr [\<lparr>startTime = js ''1'', endTime = js ''2'',
              textLines = [js ''one two''], originalIndex = 0\<rparr>,
            \<lparr>startTime = js ''2'', endTime = js ''3'',
              textLines = [js ''three four''], originalIndex = 1\<rparr>]"
proof (intro conjI impI)
  assume "0 < length ls \<and> length ls < slots"
  then show "underfill slots ls n =
        (case claimed_split_longest ls of
           Some ls' \<Rightarrow> underfill slots ls' (Suc n)
         | None \<Rightarrow> Inr (ls, True, n))"
    by (simp add: underfill_step)
next
  assume "\<not> (0 < length ls \<and> length ls < slots)"
  then show "underfill slots ls n = Inr (ls, False, n)"
    by (rule underfill_exit)
next
  show "claimed_split_longest ls = None \<longleftrightarrow>
        length (split_str [sp] (ls ! first_max_index ls)) = 1"
    by (rule claimed_split_longest_None)
next
  show "underfill slots ls n =
       Inr (claimed_underfill slots ls,
            0 < length (claimed_underfill slots ls)
              \<and> length (claimed_underfill slots ls) < slots,
            n + (length (claimed_underfill slots ls) - length ls))"
    by (rule underfill_claimed)
next
  assume a: "0 < length (translatedLines_of t)
        \<and> length (translatedLines_of t) < totalLines_of g"
  then have le: "length (translatedLines_of t) \<le> totalLines_of g" by simp
  from redistribute_run_underfill [OF le] obtain r where
    r: "redistribute_run g t = Inr r"
       "run_lines r = claimed_underfill (totalLines_of g) (translatedLines_of t)"
       "length (run_lines r) \<le> totalLines_of g"
       "run_splits r = length (run_lines r) - length (translatedLines_of t)"
       "run_broke r \<longleftrightarrow> 0 < length (run_lines r) \<and> length (run_lines r) < totalLines_of g"
    by blast
  obtain b n' where
    "underfill (totalLines_of g) (translatedLines_of t) 0 = Inr (run_lines r, b, n')"
    using underfill_claimed [of "totalLines_of g" "translatedLines_of t" 0] r(2) by simp
  moreover obtain ls2 b2 n2 where
    "underfill (totalLines_of g) (translatedLines_of t) 0 = Inr (ls2, b2, n2)"
    "length ls2 = length (translatedLines_of t) + (n2 - 0)"
    using underfill_result [of "totalLines_of g" "translatedLines_of t" 0] by blast
  ultimately have "0 < length (run_lines r)" using a by auto
  with r show "\<exists>r. redistribute_run g t = Inr r
           \<and> run_lines r = claimed_underfill (totalLines_of g) (translatedLines_of t)
           \<and> length (run_lines r) \<le> totalLines_of g
           \<and> run_splits r = length (run_lines r) - length (translatedLines_of t)
           \<and> (run_broke r \<longleftrightarrow> length (run_lines r) < totalLines_of g)"
    by auto
next
  assume 2: "totalLines_of g = 2"
  have "length (translatedLines_of (js ''one two three four'')) \<le> totalLines_of g"
    by (simp add: 2 four_words_lines)
  from redistribute_run_underfill [OF this]
  show "\<exists>r. redistribute_run g (js ''one two three four'') = Inr r
           \<and> run_lines r = [js ''one two'', js ''three four'']"
    by (auto simp: 2 four_words_lines four_words_claimed)
next
  assume 2: "totalLines_of g = 2"
  have "length (translatedLines_of (js ''a b c d e f'')) \<le> totalLines_of g"
    by (simp add: 2 six_words_lines)
  from redistribute_run_underfill [OF this]
  show "\<exists>r. redistribute_run g (js ''a b c d e f'') = Inr r
           \<and> run_lines r = [js ''a b c'', js ''d e f'']"
    by (auto simp: 2 six_words_lines six_words_claimed)
next
  show "redistributeTranslation
       \<lparr>cues = [\<lparr>startTime = js ''1'', endTime = js ''2'',
                 textLines = [js ''uno dos''], originalIndex = 0\<rparr>,
                \<lparr>startTime = js ''2'', endTime = js ''3'',
                 textLines = [js ''tres cuatro''], originalIndex = 1\<rparr>],
        combinedText = js ''uno dos tres cuatro''\<rparr>
       (js ''one two three four'')
     = Inr [\<lparr>startTime = js ''1'', endTime = js ''2'',
              textLines = [js ''one two''], originalIndex = 0\<rparr>,
            \<lparr>startTime = js ''2'', endTime = js ''3'',
              textLines = [js ''three four''], originalIndex = 1\<rparr>]"
    by code_simp
qed

theorem underfill_splits_longest_witness:
  "underfill 2 [js ''one two three four''] 0
     = underfill 2 [js ''one two'', js ''three four''] (Suc 0)
   \<and> underfill 2 [js ''one two'', js ''three four''] (Suc 0)
     = Inr ([js ''one two'', js ''three four''], False, Suc 0)
   \<and> totalLines_of \<lparr>cues = [\<lparr>startTime = js ''1'', endTime = js ''2'',
                 textLines = [js ''uno'', js ''dos''], originalIndex = 0\<rparr>],
        combinedText = js ''uno dos''\<rparr> = 2
   \<and> (\<exists>r. redistribute_run \<lparr>cues = [\<lparr>startTime = js ''1'', endTime = js ''2'',
                 textLines = [js ''uno'', js ''dos''], originalIndex = 0\<rparr>],
        combinedText = js ''uno dos''\<rparr> (js ''a b c d e f'') = Inr r
           \<and> run_lines r = [js ''a b c'', js ''d e f'']
           \<and> run_splits r = 1 \<and> \<not> run_broke r)"
proof -
  let ?g = "\<lparr>cues = [\<lparr>startTime = js ''1'', endTime = js ''2'',
                 textLines = [js ''uno'', js ''dos''], originalIndex = 0\<rparr>],
        combinedText = js ''uno dos''\<rparr>"
  let ?t = "js ''a b c d e f''"
  have g: "totalLines_of ?g = 2" by (simp add: totalLines_of_def)
  have h: "0 < length (translatedLines_of ?t) \<and> length (translatedLines_of ?t) < totalLines_of ?g"
    by (simp add: g six_words_lines)
  have 1: "underfill 2 [js ''one two three four''] 0
     = underfill 2 [js ''one two'', js ''three four''] (Suc 0)"
    using underfill_splits_longest [of "[js ''one two three four'']" 2 0 ?t ?g]
    by (simp add: four_words_split)
  have 2: "underfill 2 [js ''one two'', js ''three four''] (Suc 0)
     = Inr ([js ''one two'', js ''three four''], False, Suc 0)"
    using underfill_splits_longest [of "[js ''one two'', js ''three four'']" 2 "Suc 0" ?t ?g]
    by simp
  from underfill_splits_longest [of "[]" 2 0 ?t ?g] h obtain r where
    r: "redistribute_run ?g ?t = Inr r"
       "run_lines r = claimed_underfill (totalLines_of ?g) (translatedLines_of ?t)"
       "run_splits r = length (run_lines r) - length (translatedLines_of ?t)"
       "run_broke r \<longleftrightarrow> length (run_lines r) < totalLines_of ?g"
    by blast
  from r(2) have l: "run_lines r = [js ''a b c'', js ''d e f'']"
    by (simp add: g six_words_lines six_words_claimed)
  with r(3,4) have "run_splits r = 1" "\<not> run_broke r"
    by (simp_all add: g six_words_lines)
  with 1 2 g r(1) l show ?thesis by blast
qed


text \<open>
  C3. When the translated lines outnumber the slots of the group (and the group has a
  slot), the under-fill loop leaves them as they are, and the lines that go into the
  slots are the first \<open>slotCount - 1\<close> lines unchanged, followed by one last line: all
  remaining lines joined with single spaces. There are as many of them as slots, and
  each cue gets, in order, as many of them as it had text lines. For two slots and the
  text \<open>A\nB\nC\<close> the lines are \<open>A\<close> and \<open>B C\<close>.
\<close>

theorem overfill_merges_excess:
  "(0 < totalLines_of g \<and> totalLines_of g < length (translatedLines_of t) \<longrightarrow>
      (\<exists>r. redistribute_run g t = Inr r
         \<and> run_lines r =
             take (totalLines_of g - 1) (translatedLines_of t) @
               [join [sp] (drop (totalLines_of g - 1) (translatedLines_of t))]
         \<and> length (run_lines r) = totalLines_of g
         \<and> map textLines (run_cues r)
           = runs_of (map (\<lambda>c. length (textLines c)) (cues g)) (run_lines r)))
   \<and> redistributeTranslation
       \<lparr>cues = [\<lparr>startTime = js ''1'', endTime = js ''2'',
                 textLines = [js ''uno''], originalIndex = 0\<rparr>,
                \<lparr>startTime = js ''2'', endTime = js ''3'',
                 textLines = [js ''dos''], originalIndex = 1\<rparr>],
        combinedText = js ''uno dos''\<rparr>
       (js ''A'' @ [nl] @ js ''B'' @ [nl] @ js ''C'')
     = Inr [\<lparr>startTime = js ''1'', endTime = js ''2'',
              textLines = [js ''A''], originalIndex = 0\<rparr>,
            \<lparr>startTime = js ''2'', endTime = js ''3'',
              textLines = [js ''B C''], originalIndex = 1\<rparr>]"
proof (intro conjI impI)
  let ?n = "totalLines_of g" and ?L = "translatedLines_of t"
  assume a: "0 < ?n \<and> ?n < length ?L"
  then have u: "underfill ?n ?L 0 = Inr (?L, False, 0)"
    by (simp add: underfill_exit)
  from a have o: "overfill ?n ?L = take (?n - 1) ?L @ [join [sp] (drop (?n - 1) ?L)]"
    by (simp add: overfill_def)
  with a have len: "length (overfill ?n ?L) = ?n" by (auto simp: min_def)
  have nb: "list_all (\<lambda>l. length (trim l) > 0) (overfill ?n ?L)"
    by (rule overfill_nonblank) (rule translatedLines_nonblank)
  from redistribute_run_exact [OF u _ nb] len obtain r where
    "redistribute_run g t = Inr r" "run_lines r = overfill ?n ?L"
    "map textLines (run_cues r)
       = runs_of (map (\<lambda>c. length (textLines c)) (cues g)) (run_lines r)"
    by auto
  with o len show "\<exists>r. redistribute_run g t = Inr r
         \<and> run_lines r = take (?n - 1) ?L @ [join [sp] (drop (?n - 1) ?L)]
         \<and> length (run_lines r) = ?n
         \<and> map textLines (run_cues r)
           = runs_of (map (\<lambda>c. length (textLines c)) (cues g)) (run_lines r)"
    by auto
next
  show "redistributeTranslation
       \<lparr>cues = [\<lparr>startTime = js ''1'', endTime = js ''2'',
                 textLines = [js ''uno''], originalIndex = 0\<rparr>,
                \<lparr>startTime = js ''2'', endTime = js ''3'',
                 textLines = [js ''dos''], originalIndex = 1\<rparr>],
        combinedText = js ''uno dos''\<rparr>
       (js ''A'' @ [nl] @ js ''B'' @ [nl] @ js ''C'')
     = Inr [\<lparr>startTime = js ''1'', endTime = js ''2'',
              textLines = [js ''A''], originalIndex = 0\<rparr>,
            \<lparr>startTime = js ''2'', endTime = js ''3'',
              textLines = [js ''B C''], originalIndex = 1\<rparr>]"
    by code_simp
qed

theorem overfill_merges_excess_witness:
  "0 < totalLines_of \<lparr>cues = [\<lparr>startTime = js ''1'', endTime = js ''2'',
                 textLines = [js ''uno'', js ''dos''], originalIndex = 0\<rparr>],
        combinedText = js ''uno dos''\<rparr>
   \<and> totalLines_of \<lparr>cues = [\<lparr>startTime = js ''1'', endTime = js ''2'',
                 textLines = [js ''uno'', js ''dos''], originalIndex = 0\<rparr>],
        combinedText = js ''uno dos''\<rparr>
       < length (translatedLines_of (js ''A'' @ [nl] @ js ''B'' @ [nl] @ js ''C''))
   \<and> (\<exists>r. redistribute_run \<lparr>cues = [\<lparr>startTime = js ''1'', endTime = js ''2'',
                 textLines = [js ''uno'', js ''dos''], originalIndex = 0\<rparr>],
        combinedText = js ''uno dos''\<rparr> (js ''A'' @ [nl] @ js ''B'' @ [nl] @ js ''C'') = Inr r
         \<and> run_lines r = [js ''A'', js ''B C''])"
proof -
  let ?g = "\<lparr>cues = [\<lparr>startTime = js ''1'', endTime = js ''2'',
                 textLines = [js ''uno'', js ''dos''], originalIndex = 0\<rparr>],
        combinedText = js ''uno dos''\<rparr>"
  let ?t = "js ''A'' @ [nl] @ js ''B'' @ [nl] @ js ''C''"
  have h: "0 < totalLines_of ?g \<and> totalLines_of ?g < length (translatedLines_of ?t)"
    using abc_lines by (simp add: totalLines_of_def)
  have t: "totalLines_of ?g = 2" by (simp add: totalLines_of_def)
  have j: "join [sp] [js ''B'', js ''C''] = js ''B C''" by (simp add: js_def sp_def)
  from overfill_merges_excess [of ?g ?t] h obtain r where
    "redistribute_run ?g ?t = Inr r"
    "run_lines r = take (totalLines_of ?g - 1) (translatedLines_of ?t) @
               [join [sp] (drop (totalLines_of ?g - 1) (translatedLines_of ?t))]"
    by blast
  then have "redistribute_run ?g ?t = Inr r \<and> run_lines r = [js ''A'', js ''B C'']"
    using abc_lines j by (simp add: t)
  with h show ?thesis by blast
qed


text \<open>
  C4, as stated, fails on the code. After \<open>Wait.\<close> a next line that begins with a
  curly quotation mark (U+201C) does not close the group, nor does one that begins
  with an uppercase letter beyond A to Z (U+00C9); and a previous line that ends in the
  ellipsis (U+2026) does not close it before \<open>And\<close>. The claimed conditions hold for all
  three pairs.
\<close>

theorem group_claimed_boundary_fails:
  "claimed_boundary
     \<lparr>startTime = js ''1'', endTime = js ''2'', textLines = [js ''Wait.''], originalIndex = 0\<rparr>
     \<lparr>startTime = js ''2'', endTime = js ''3'', textLines = [0x201C # js ''And''],
      originalIndex = 1\<rparr>
   \<and> groupCuesIntoSentences
       [\<lparr>startTime = js ''1'', endTime = js ''2'',
         textLines = [js ''Wait.''], originalIndex = 0\<rparr>,
        \<lparr>startTime = js ''2'', endTime = js ''3'',
         textLines = [0x201C # js ''And''], originalIndex = 1\<rparr>]
     = Inr [\<lparr>cues = [\<lparr>startTime = js ''1'', endTime = js ''2'',
                       textLines = [js ''Wait.''], originalIndex = 0\<rparr>,
                      \<lparr>startTime = js ''2'', endTime = js ''3'',
                       textLines = [0x201C # js ''And''], originalIndex = 1\<rparr>],
             combinedText = js ''Wait. '' @ 0x201C # js ''And''\<rparr>]
   \<and> claimed_boundary
     \<lparr>startTime = js ''1'', endTime = js ''2'', textLines = [js ''Wait.''], originalIndex = 0\<rparr>
     \<lparr>startTime = js ''2'', endTime = js ''3'', textLines = [0xC9 # js ''cole''],
      originalIndex = 1\<rparr>
   \<and> groupCuesIntoSentences
       [\<lparr>startTime = js ''1'', endTime = js ''2'',
         textLines = [js ''Wait.''], originalIndex = 0\<rparr>,
        \<lparr>startTime = js ''2'', endTime = js ''3'',
         textLines = [0xC9 # js ''cole''], originalIndex = 1\<rparr>]
     = Inr [\<lparr>cues = [\<lparr>startTime = js ''1'', endTime = js ''2'',
                       textLines = [js ''Wait.''], originalIndex = 0\<rparr>,
                      \<lparr>startTime = js ''2'', endTime = js ''3'',
                       textLines = [0xC9 # js ''cole''], originalIndex = 1\<rparr>],
             combinedText = js ''Wait. '' @ 0xC9 # js ''cole''\<rparr>]
   \<and> claimed_boundary
     \<lparr>startTime = js ''1'', endTime = js ''2'', textLines = [js ''Wait'' @ [0x2026]],
      originalIndex = 0\<rparr>
     \<lparr>startTime = js ''2'', endTime = js ''3'', textLines = [js ''And''], originalIndex = 1\<rparr>
   \<and> groupCuesIntoSentences
       [\<lparr>startTime = js ''1'', endTime = js ''2'',
         textLines = [js ''Wait'' @ [0x2026]], originalIndex = 0\<rparr>,
        \<lparr>startTime = js ''2'', endTime = js ''3'',
         textLines = [js ''And''], originalIndex = 1\<rparr>]
     = Inr [\<lparr>cues = [\<lparr>startTime = js ''1'', endTime = js ''2'',
                       textLines = [js ''Wait'' @ [0x2026]], originalIndex = 0\<rparr>,
                      \<lparr>startTime = js ''2'', endTime = js ''3'',
                       textLines = [js ''And''], originalIndex = 1\<rparr>],
             combinedText = js ''Wait'' @ [0x2026] @ js '' And''\<rparr>]"
  by (simp add: group_eq close_group_def sentence_boundary_def lastLine_of_def
      nextFirstLine_of_def js_index_def trim_def is_ws_def js_def
      claimed_boundary_def claimed_sentence_ending_def claimed_sentence_starting_def
      SENTENCE_ENDINGS_test_def SENTENCE_ENDINGS_class_def
      SENTENCE_STARTERS_test_def SENTENCE_STARTERS_class_def
      combineCueTexts_def sp_def)


text \<open>
  C4, amended. For every cue sequence, \<open>groupCuesIntoSentences\<close> returns the input cut
  between adjacent pairs of cues, and between every pair whose previous cue's last text
  line, trimmed, does not end in the ellipsis or in one of the characters U+00E2,
  U+20AC, U+00A6 it cuts exactly when that line ends in \<open>.\<close>, \<open>!\<close> or \<open>?\<close> and the
  next cue's first text line, trimmed, begins with a letter A to Z, a hyphen or a
  straight quotation mark; otherwise the next cue joins the open group. Nothing is
  said of the pairs left out. In particular, when no cue but the last has such an
  ending, the groups are the input cut at exactly the pairs with the two conditions.
\<close>

theorem group_closes_at_boundaries:
  "\<exists>gs. groupCuesIntoSentences cs = Inr gs
     \<and> (\<exists>b. map cues gs = cut_at b cs
          \<and> (\<forall>prev next. \<not> ellipsis_like_ending (trim (lastLine_of prev)) \<longrightarrow>
                b prev next = plain_boundary prev next))
     \<and> (plain_endings (butlast cs) \<longrightarrow> map cues gs = cut_at plain_boundary cs)"
proof -
  obtain gs where g: "groupCuesIntoSentences cs = Inr gs"
    "map cues gs = cut_at sentence_boundary cs"
    using group_cut [of cs] by blast
  have 1: "\<forall>prev next. \<not> ellipsis_like_ending (trim (lastLine_of prev)) \<longrightarrow>
      sentence_boundary prev next = plain_boundary prev next"
    by (simp add: plain_boundary_eq)
  have 2: "map cues gs = cut_at plain_boundary cs" if "plain_endings (butlast cs)"
  proof -
    from that have "\<And>x y. x \<in> set (butlast cs) \<Longrightarrow> sentence_boundary x y = plain_boundary x y"
      by (simp add: plain_endings_def list_all_iff plain_boundary_eq)
    then have "cut_at sentence_boundary cs = cut_at plain_boundary cs"
      by (rule cut_at_cong_butlast)
    with g(2) show ?thesis by simp
  qed
  from g 1 2 show ?thesis by blast
qed

theorem group_closes_at_boundaries_witness:
  "\<not> ellipsis_like_ending
       (trim (lastLine_of \<lparr>startTime = js ''1'', endTime = js ''2'',
                            textLines = [js ''Wait.''], originalIndex = 0\<rparr>))
   \<and> plain_endings (butlast
       [\<lparr>startTime = js ''1'', endTime = js ''2'',
         textLines = [js ''Wait.''], originalIndex = 0\<rparr>,
        \<lparr>startTime = js ''2'', endTime = js ''3'',
         textLines = [js ''And so'' @ [0x2026]], originalIndex = 1\<rparr>])
   \<and> (\<exists>gs. groupCuesIntoSentences
       [\<lparr>startTime = js ''1'', endTime = js ''2'',
         textLines = [js ''Wait.''], originalIndex = 0\<rparr>,
        \<lparr>startTime = js ''2'', endTime = js ''3'',
         textLines = [js ''And so'' @ [0x2026]], originalIndex = 1\<rparr>] = Inr gs
     \<and> map cues gs =
         [[\<lparr>startTime = js ''1'', endTime = js ''2'',
            textLines = [js ''Wait.''], originalIndex = 0\<rparr>],
          [\<lparr>startTime = js ''2'', endTime = js ''3'',
            textLines = [js ''And so'' @ [0x2026]], originalIndex = 1\<rparr>]])"
proof -
  let ?c1 = "\<lparr>startTime = js ''1'', endTime = js ''2'',
         textLines = [js ''Wait.''], originalIndex = 0\<rparr>"
  let ?c2 = "\<lparr>startTime = js ''2'', endTime = js ''3'',
         textLines = [js ''And so'' @ [0x2026]], originalIndex = 1\<rparr>"
  have e: "\<not> ellipsis_like_ending (trim (lastLine_of ?c1))"
    by (simp add: ellipsis_like_ending_def lastLine_of_def js_index_def
        trim_def is_ws_def js_def)
  then have h: "plain_endings (butlast [?c1, ?c2])"
    by (simp add: plain_endings_def)
  have p: "plain_boundary ?c1 ?c2"
    by (simp add: plain_boundary_def plain_sentence_ending_def plain_sentence_starting_def
        lastLine_of_def nextFirstLine_of_def js_index_def trim_def is_ws_def js_def)
  from group_closes_at_boundaries [of "[?c1, ?c2]"] obtain gs b where
    g: "groupCuesIntoSentences [?c1, ?c2] = Inr gs"
       "map cues gs = cut_at b [?c1, ?c2]"
       "\<forall>prev next. \<not> ellipsis_like_ending (trim (lastLine_of prev)) \<longrightarrow>
                b prev next = plain_boundary prev next"
    by blast
  from g(3) e p have "b ?c1 ?c2" by blast
  with g(2) have m: "map cues gs = [[?c1], [?c2]]" by simp
  have "\<exists>gs. groupCuesIntoSentences [?c1, ?c2] = Inr gs \<and> map cues gs = [[?c1], [?c2]]"
    by (rule exI [of _ gs]) (rule conjI [OF g(1) m])
  with e h show ?thesis by (intro conjI)
qed


text \<open>
  C5. For every group and every translated text (the non-empty ones among them),
  \<open>redistributeTranslation\<close> returns one cue for each cue of the group, in the same
  order, with the same \<open>startTime\<close>, \<open>endTime\<close> and \<open>originalIndex\<close>.
\<close>

theorem redistribute_keeps_frame:
  "\<exists>out. redistributeTranslation g t = Inr out
     \<and> length out = length (cues g)
     \<and> map startTime out = map startTime (cues g)
     \<and> map endTime out = map endTime (cues g)
     \<and> map originalIndex out = map originalIndex (cues g)"
proof -
  obtain ls b n where "underfill (totalLines_of g) (translatedLines_of t) 0 = Inr (ls, b, n)"
    using underfill_result [of "totalLines_of g" "translatedLines_of t" 0] by blast
  from redistribute_run_result [OF this] obtain r where
    r: "redistribute_run g t = Inr r"
       "map startTime (run_cues r) = map startTime (cues g)"
       "map endTime (run_cues r) = map endTime (cues g)"
       "map originalIndex (run_cues r) = map originalIndex (cues g)"
    by blast
  from r(2) have "length (run_cues r) = length (cues g)"
    by (rule map_eq_imp_length_eq)
  with r show ?thesis by (simp add: redistributeTranslation_def)
qed


text \<open>
  C6. For every cue sequence, \<open>groupCuesIntoSentences\<close> returns groups whose cues,
  concatenated in group order, are exactly the input: nothing is omitted, duplicated or
  reordered. The groups are the consecutive runs of the input with the groups' lengths,
  and no group is empty, so every cue belongs to exactly one group.
\<close>

theorem group_coverage:
  "\<exists>gs. groupCuesIntoSentences cs = Inr gs
     \<and> concat (map cues gs) = cs
     \<and> map cues gs = runs_of (map (length \<circ> cues) gs) cs
     \<and> [] \<notin> set (map cues gs)"
proof (cases cs)
  case Nil
  then show ?thesis by (simp add: groupCuesIntoSentences_def)
next
  case (Cons c rest)
  let ?st = "\<lparr>gs_groups = [], gs_currentGroup = [c]\<rparr>"
  let ?gs = "close_group (group_from c rest ?st)"
  have c: "concat (map cues ?gs) = cs"
    using group_from_concat [of c rest ?st] Cons by simp
  have n: "[] \<notin> set (map cues ?gs)"
    by (rule group_from_nonempty) simp_all
  have "runs_of (map length (map cues ?gs)) (concat (map cues ?gs)) = map cues ?gs"
    by (rule runs_of_concat)
  then have r: "map cues ?gs = runs_of (map (length \<circ> cues) ?gs) cs"
    by (simp add: c)
  have g: "groupCuesIntoSentences cs = Inr ?gs"
    using group_eq [of c rest] Cons by simp
  show ?thesis
    by (rule exI [of _ ?gs]) (intro conjI g c r n)
qed


text \<open>
  C7. None of the four transformations throws: \<open>parse\<close>, \<open>groupCuesIntoSentences\<close> and
  \<open>redistributeTranslation\<close> return a value for every input and never a TypeError (no
  method is called on \<open>undefined\<close>, and the \<open>while\<close> loop ends), and \<open>reconstructVTT\<close>,
  which has no operation that can throw, returns a text that begins with the header.
\<close>

theorem core_is_total:
  "(\<exists>cs. parse s = Inr cs)
   \<and> (\<exists>gs. groupCuesIntoSentences cs = Inr gs)
   \<and> (\<exists>out. redistributeTranslation g t = Inr out)
   \<and> prefix (js ''WEBVTT'') (reconstructVTT cs)"
proof (intro conjI)
  show "\<exists>cs. parse s = Inr cs" by (simp add: parse_eq)
  show "\<exists>gs. groupCuesIntoSentences cs = Inr gs"
  proof (cases cs)
    case Nil
    then show ?thesis by (simp add: groupCuesIntoSentences_def)
  next
    case (Cons c rest)
    then show ?thesis by (simp add: group_eq)
  qed
  obtain ls b n where "underfill (totalLines_of g) (translatedLines_of t) 0 = Inr (ls, b, n)"
    using underfill_result [of "totalLines_of g" "translatedLines_of t" 0] by blast
  from redistribute_run_result [OF this]
  show "\<exists>out. redistributeTranslation g t = Inr out"
    by (auto simp: redistributeTranslation_def)
  show "prefix (js ''WEBVTT'') (reconstructVTT cs)" by (rule reconstructVTT_header)
qed


text \<open>
  C8, as stated, fails for a translated text without any non-empty line: the loop is
  not entered, nothing is split, and every slot gets the fallback.
\<close>

theorem fallback_without_break:
  "redistribute_run
     \<lparr>cues = [\<lparr>startTime = js ''1'', endTime = js ''2'',
               textLines = [js ''uno''], originalIndex = 0\<rparr>],
      combinedText = js ''uno''\<rparr> []
   = Inr \<lparr>run_cues = [\<lparr>startTime = js ''1'', endTime = js ''2'',
                        textLines = [], originalIndex = 0\<rparr>],
          run_lines = [], run_broke = False, run_splits = 0, run_fallback = True\<rparr>"
  by code_simp


text \<open>
  C8, amended. For every group and every translated text with at least one non-empty
  trimmed line: if a slot gets the empty-string fallback, then the under-fill loop has
  ended by \<open>break\<close>, the lines are still fewer than the slots, and the longest of them
  has exactly one word.
\<close>

theorem fallback_only_after_break:
  "translatedLines_of t \<noteq> [] \<Longrightarrow>
   \<exists>r. redistribute_run g t = Inr r
     \<and> (run_fallback r \<longrightarrow>
          run_broke r \<and> length (run_lines r) < totalLines_of g
          \<and> length (split_str [sp] (run_lines r ! first_max_index (run_lines r))) = 1)"
proof -
  assume ne: "translatedLines_of t \<noteq> []"
  obtain ls b n where
    u: "underfill (totalLines_of g) (translatedLines_of t) 0 = Inr (ls, b, n)"
       "length ls = length (translatedLines_of t) + (n - 0)"
       "b \<longleftrightarrow> 0 < length ls \<and> length ls < totalLines_of g"
       "b \<longrightarrow> claimed_split_longest ls = None"
    using underfill_result [of "totalLines_of g" "translatedLines_of t" 0] by blast
  from redistribute_run_result [OF u(1)] obtain r where
    r: "redistribute_run g t = Inr r" "run_lines r = overfill (totalLines_of g) ls"
       "run_broke r = b"
       "run_fallback r \<longleftrightarrow> totalLines_of g > length (overfill (totalLines_of g) ls)"
    by blast
  from ne u(2) have pos: "0 < length ls" by simp
  have "run_broke r \<and> length (run_lines r) < totalLines_of g
          \<and> length (split_str [sp] (run_lines r ! first_max_index (run_lines r))) = 1"
    if f: "run_fallback r"
  proof -
    from f r(4) have "totalLines_of g > length (overfill (totalLines_of g) ls)" by simp
    with pos have lt: "length ls < totalLines_of g"
      by (auto simp: overfill_def split: if_splits)
    then have o: "overfill (totalLines_of g) ls = ls" by (simp add: overfill_def)
    from lt pos u(3) have b by simp
    with u(4) have "length (split_str [sp] (ls ! first_max_index ls)) = 1"
      by (simp add: claimed_split_longest_None)
    with \<open>b\<close> lt show ?thesis by (simp add: r(2,3) o)
  qed
  with r(1) show ?thesis by blast
qed

theorem fallback_only_after_break_witness:
  "translatedLines_of (js ''Hi'') \<noteq> []
   \<and> (\<exists>r. redistribute_run
            \<lparr>cues = [\<lparr>startTime = js ''1'', endTime = js ''2'',
                      textLines = [js ''uno'', js ''dos'', js ''tres''], originalIndex = 0\<rparr>],
             combinedText = js ''uno dos tres''\<rparr> (js ''Hi'') = Inr r
         \<and> run_fallback r \<and> run_broke r)"
proof -
  have ne: "translatedLines_of (js ''Hi'') \<noteq> []"
    by (simp add: translatedLines_of_def js_def trim_def is_ws_def nl_def cr_def)
  have f: "redistribute_run
            \<lparr>cues = [\<lparr>startTime = js ''1'', endTime = js ''2'',
                      textLines = [js ''uno'', js ''dos'', js ''tres''], originalIndex = 0\<rparr>],
             combinedText = js ''uno dos tres''\<rparr> (js ''Hi'')
      = Inr \<lparr>run_cues = [\<lparr>startTime = js ''1'', endTime = js ''2'',
                            textLines = [js ''Hi''], originalIndex = 0\<rparr>],
             run_lines = [js ''Hi''], run_broke = True, run_splits = 0,
             run_fallback = True\<rparr>"
    by code_simp
  from fallback_only_after_break [OF ne, of
      "\<lparr>cues = [\<lparr>startTime = js ''1'', endTime = js ''2'',
                      textLines = [js ''uno'', js ''dos'', js ''tres''], originalIndex = 0\<rparr>],
             combinedText = js ''uno dos tres''\<rparr>"]
  obtain r where
    r: "redistribute_run
            \<lparr>cues = [\<lparr>startTime = js ''1'', endTime = js ''2'',
                      textLines = [js ''uno'', js ''dos'', js ''tres''], originalIndex = 0\<rparr>],
             combinedText = js ''uno dos tres''\<rparr> (js ''Hi'') = Inr r"
       "run_fallback r \<longrightarrow> run_broke r"
    by blast
  from r(1) f have "run_fallback r" by auto
  with r ne show ?thesis by blast
qed


text \<open>
  C9. For every input string, \<open>parse\<close> returns, and the cue at position \<open>i\<close> of its
  result carries \<open>originalIndex = i\<close>: the values start at 0, increase strictly and are
  unique.
\<close>

theorem parse_index_monotone:
  "\<exists>cs. parse s = Inr cs \<and> map originalIndex cs = map int [0..<length cs]
     \<and> sorted_wrt (<) (map originalIndex cs) \<and> distinct (map originalIndex cs)"
proof -
  let ?cs = "ps_cues (save_previous (parse_lines (split_str [nl] s) parse_init))"
  have "indexed (save_previous (parse_lines (split_str [nl] s) parse_init))"
    by (intro indexed_save_previous indexed_parse_lines indexed_init)
  then have m: "map originalIndex ?cs = map int [0..<length ?cs]"
    by (simp add: indexed_def)
  have "sorted_wrt (<) (map int [0..<length ?cs])"
    by (simp add: sorted_wrt_map)
  moreover have "distinct (map int [0..<length ?cs])"
    by (simp add: distinct_map)
  ultimately show ?thesis using m parse_eq [of s] by simp
qed


text \<open>
  C10. The under-fill loop of \<open>redistributeTranslation\<close> ends for every slot count and
  every list of lines: \<open>underfill\<close> is a total function, defined by well-founded
  recursion on \<open>totalLines - translatedLines.length\<close>. A turn of the loop either replaces
  one line by two, so that the number of lines grows by exactly one, or leaves by
  \<open>break\<close>; the loop splits at most \<open>totalLines\<close> minus the initial number of lines
  times, and the final number of lines is the initial one plus the number of splits.
\<close>

theorem underfill_terminates:
  "(\<exists>ls' b n'. underfill slots ls n = Inr (ls', b, n')
      \<and> n \<le> n' \<and> n' - n \<le> slots - length ls
      \<and> length ls' = length ls + (n' - n))
   \<and> (0 < length ls \<and> length ls < slots \<longrightarrow>
        (\<exists>ls1. length ls1 = Suc (length ls)
           \<and> underfill slots ls n = underfill slots ls1 (Suc n))
        \<or> underfill slots ls n = Inr (ls, True, n))
   \<and> (\<exists>r. redistribute_run g t = Inr r
        \<and> run_splits r \<le> totalLines_of g - length (translatedLines_of t))"
proof (intro conjI impI)
  show "\<exists>ls' b n'. underfill slots ls n = Inr (ls', b, n')
      \<and> n \<le> n' \<and> n' - n \<le> slots - length ls
      \<and> length ls' = length ls + (n' - n)"
    using underfill_result [of slots ls n] by blast
next
  assume a: "0 < length ls \<and> length ls < slots"
  show "(\<exists>ls1. length ls1 = Suc (length ls)
           \<and> underfill slots ls n = underfill slots ls1 (Suc n))
        \<or> underfill slots ls n = Inr (ls, True, n)"
  proof (cases "claimed_split_longest ls")
    case None
    with a show ?thesis by (simp add: underfill_step)
  next
    case (Some ls1)
    with a have "length ls1 = Suc (length ls)"
      using claimed_split_longest_length [of ls ls1] by auto
    moreover from a Some have "underfill slots ls n = underfill slots ls1 (Suc n)"
      by (simp add: underfill_step)
    ultimately show ?thesis by blast
  qed
next
  obtain ls' b n where
    u: "underfill (totalLines_of g) (translatedLines_of t) 0 = Inr (ls', b, n)"
       "n - 0 \<le> totalLines_of g - length (translatedLines_of t)"
    using underfill_result [of "totalLines_of g" "translatedLines_of t" 0] by blast
  from redistribute_run_result [OF u(1)] u(2)
  show "\<exists>r. redistribute_run g t = Inr r
        \<and> run_splits r \<le> totalLines_of g - length (translatedLines_of t)"
    by auto
qed

theorem underfill_terminates_witness:
  "0 < length [js ''one two three four''] \<and> length [js ''one two three four''] < (2::nat)
   \<and> (\<exists>ls1. length ls1 = Suc (length [js ''one two three four''])
        \<and> underfill 2 [js ''one two three four''] 0 = underfill 2 ls1 (Suc 0))"
proof -
  have a: "0 < length [js ''one two three four''] \<and> length [js ''one two three four''] < (2::nat)"
    by simp
  have "underfill 2 [js ''one two three four''] 0 \<noteq> Inr ([js ''one two three four''], True, 0)"
    by (simp add: four_words_underfill)
  with underfill_terminates [of 2 "[js ''one two three four'']" 0] a show ?thesis
    by blast
qed

end
